theory Spec2Isabelle
  imports Main
begin

section \<open>The Guamian container (shared/include/container.h)\<close>

text \<open>
  A Guamian is a singly linked list of knobs; every knob carries a key (\<open>mData\<close>), an
  attribute and a singly linked list of elements. Both linked lists are modelled as HOL
  lists, the head of the list first. A pointer to a knob is the position of the knob
  in the list of knobs.
\<close>

record ('k, 'e) Knob =
  mAttr :: nat
  mData :: 'k
  mChildren :: "'e list"

type_synonym ('k, 'e) Guamian = "('k, 'e) Knob list"

definition NewKnob :: "('k::zero, 'e) Knob" where
  "NewKnob = \<lparr>mAttr = 0, mData = 0, mChildren = []\<rparr>"

text \<open>\<open>FindKnob\<close>: the first knob whose key is \<open>key\<close>, \<open>None\<close> for the NULL result.\<close>

fun FindKnob :: "('k, 'e) Guamian \<Rightarrow> 'k \<Rightarrow> nat option" where
  "FindKnob [] key = None"
| "FindKnob (knob # rest) key =
     (if mData knob = key then Some 0 else map_option Suc (FindKnob rest key))"

text \<open>
  \<open>FindOrCreateKnob\<close> returns the knob found, or puts a new knob at the head of the
  list. The result is the pointer to the knob together with the list of knobs.
\<close>

definition FindOrCreateKnob :: "('k::zero, 'e) Guamian \<Rightarrow> 'k \<Rightarrow> nat \<times> ('k, 'e) Guamian" where
  "FindOrCreateKnob header key =
     (case FindKnob header key of
        Some i \<Rightarrow> (i, header)
      | None \<Rightarrow> (0, (NewKnob\<lparr>mData := key\<rparr>) # header))"

text \<open>The search loop over the elements of one knob, shared by the private
  \<open>AddElem(Knob*, E)\<close> and \<open>FindElem(Knob*, E)\<close>.\<close>

fun FindElem_knob :: "'e list \<Rightarrow> 'e \<Rightarrow> bool" where
  "FindElem_knob [] data = False"
| "FindElem_knob (e # rest) data = (if e = data then True else FindElem_knob rest data)"

text \<open>The private \<open>AddElem(Knob*, E)\<close>: a new element becomes the first child.\<close>

definition AddElem_knob :: "('k, 'e) Knob \<Rightarrow> 'e \<Rightarrow> ('k, 'e) Knob" where
  "AddElem_knob knob data =
     (if FindElem_knob (mChildren knob) data then knob
      else knob\<lparr>mChildren := data # mChildren knob\<rparr>)"

text \<open>The public \<open>AddElem(K, E)\<close>.\<close>

definition AddElem :: "('k::zero, 'e) Guamian \<Rightarrow> 'k \<Rightarrow> 'e \<Rightarrow> ('k, 'e) Guamian" where
  "AddElem header key data =
     (case FindOrCreateKnob header key of
        (i, knobs) \<Rightarrow> knobs[i := AddElem_knob (knobs ! i) data])"

text \<open>The public \<open>FindElem(K, E)\<close>.\<close>

definition FindElem :: "('k, 'e) Guamian \<Rightarrow> 'k \<Rightarrow> 'e \<Rightarrow> bool" where
  "FindElem header key data =
     (case FindKnob header key of
        None \<Rightarrow> False
      | Some i \<Rightarrow> FindElem_knob (mChildren (header ! i)) data)"

text \<open>\<open>NumOfElem\<close> of the knob of a key, as \<open>PairedFindKnob\<close> followed by
  \<open>PairedNumOfElem\<close> computes it; \<open>None\<close> when the key has no knob.\<close>

fun NumOfElem :: "('k, 'e) Knob \<Rightarrow> nat" where
  "NumOfElem knob = length (mChildren knob)"

definition PairedNumOfElem :: "('k, 'e) Guamian \<Rightarrow> 'k \<Rightarrow> nat option" where
  "PairedNumOfElem header key = map_option (\<lambda>i. NumOfElem (header ! i)) (FindKnob header key)"

section \<open>Errors\<close>

text \<open>
  \<open>MERROR\<close> prints its message and exits, \<open>MASSERT\<close> is \<open>assert\<close>: both end the
  run. A read outside an array, through a null pointer or through a pointer to a node of
  another class has no defined result; the model ends the run there as well.
\<close>

datatype error =
    MERROR string
  | MASSERT string
  | Undefined string

section \<open>Rule tables and the recursion descriptors (recursion.cpp)\<close>

text \<open>
  Modelled from the spec: the declarations of \<open>RuleTable\<close>, \<open>TableData\<close>, \<open>FronNode\<close> and
  \<open>LeftRecursion\<close> are in headers that are not part of the sources at hand; the data
  below has the fields the functions of recursion.cpp use. A \<open>RuleTable*\<close> is the address
  of a static table, a number here, and the parameter \<open>tbl\<close> of the functions gives the
  table at an address. \<open>TableData\<close> is a
  tagged union (\<open>mType\<close> with \<open>mData\<close>), hence a datatype. The array \<open>mData\<close> of a rule
  table is a list and \<open>mNum\<close> is its length.
\<close>

type_synonym rt_ref = nat
type_synonym token_ref = nat

datatype EntryType =
  ET_Null | ET_Oneof | ET_Zeroormore | ET_Zeroorone | ET_Concatenate | ET_Data

datatype TableData =
    DT_Char char
  | DT_String string
  | DT_Type nat
  | DT_Token token_ref
  | DT_Subtable rt_ref
  | DT_Null

record RuleTable =
  rt_mType :: EntryType
  rt_mData :: "TableData list"

definition rt_mNum :: "RuleTable \<Rightarrow> nat" where
  "rt_mNum t = length (rt_mData t)"

text \<open>
  A \<open>FronNode\<close> has a position \<open>mPos\<close> and a tagged union: a rule table, a token, or
  the start index of the rest of a concatenation.
\<close>

datatype FronData =
    FNT_Token token_ref
  | FNT_Rule rt_ref
  | FNT_Concat nat

record FronNode =
  mPos :: nat
  fn_mData :: FronData

text \<open>
  A \<open>LeftRecursion\<close> is the lead rule table and its circles. In the source a circle is
  an array \<open>unsigned*\<close> whose element 0 is the length \<open>len\<close> and whose elements
  \<open>1..len\<close> are child indices; here a circle is the list of these child indices, so that
  \<open>circle[j]\<close> is \<open>circle ! (j - 1)\<close> and \<open>circle[0]\<close> is the length of the list.
  \<open>mNum\<close> is the number of circles.
\<close>

record LeftRecursion =
  mRuleTable :: rt_ref
  lr_mCircles :: "nat list list"

record Recursion =
  mLeadNode :: rt_ref
  mCircles :: "nat list list"
  mRecursionNodes :: "rt_ref list"
  mLeadFronNodes :: "FronNode list"
  mFronNodes :: "FronNode list list"

definition mNum :: "Recursion \<Rightarrow> nat" where
  "mNum r = length (mCircles r)"

text \<open>The value of \<open>n - 1\<close> in \<open>unsigned\<close> arithmetic.\<close>

definition unsigned_pred :: "nat \<Rightarrow> nat" where
  "unsigned_pred n = (if n = 0 then 2 ^ 32 - 1 else n - 1)"

text \<open>
  \<open>RuleFindChildAtIndex\<close>: the child at \<open>index\<close>, a rule table or a token. The position
  of the result is not set by the source, so the result is the tagged union alone.
\<close>

definition TableData_to_FronData :: "TableData \<Rightarrow> error + FronData" where
  "TableData_to_FronData data =
     (case data of
        DT_Subtable entry \<Rightarrow> Inr (FNT_Rule entry)
      | DT_Token t \<Rightarrow> Inr (FNT_Token t)
      | _ \<Rightarrow> Inl (MERROR ''Unkown type in table data''))"

definition RuleFindChildAtIndex :: "(rt_ref \<Rightarrow> RuleTable) \<Rightarrow> rt_ref \<Rightarrow> nat \<Rightarrow> error + FronData" where
  "RuleFindChildAtIndex tbl parent index =
     (case rt_mType (tbl parent) of
        ET_Concatenate \<Rightarrow>
          (if index < rt_mNum (tbl parent) then TableData_to_FronData (rt_mData (tbl parent) ! index)
           else Inl (Undefined ''mData read out of bounds''))
      | ET_Oneof \<Rightarrow>
          (if index < rt_mNum (tbl parent) then TableData_to_FronData (rt_mData (tbl parent) ! index)
           else Inl (Undefined ''mData read out of bounds''))
      | ET_Null \<Rightarrow> Inl (MERROR ''Unkown type of table'')
      | _ \<Rightarrow>
          (if index \<noteq> 0 then Inl (MASSERT ''zeroormore node has more than one elements?'')
           else if rt_mNum (tbl parent) = 0 then Inl (Undefined ''mData read out of bounds'')
           else TableData_to_FronData (rt_mData (tbl parent) ! 0)))"

fun IsRecursionNode :: "rt_ref list \<Rightarrow> rt_ref \<Rightarrow> bool" where
  "IsRecursionNode [] rt = False"
| "IsRecursionNode (n # nodes) rt = (if rt = n then True else IsRecursionNode nodes rt)"

text \<open>
  \<open>FindRecursionNodes\<close>. The inner loop walks one circle from the lead node; the list
  argument holds the child indices \<open>circle[j..len]\<close> still to follow, so \<open>j = len\<close> holds
  when one index is left.
\<close>

fun FindRecursionNodes_circle ::
  "(rt_ref \<Rightarrow> RuleTable) \<Rightarrow> rt_ref \<Rightarrow> rt_ref \<Rightarrow> nat list \<Rightarrow> rt_ref list \<Rightarrow> error + rt_ref list" where
  "FindRecursionNodes_circle tbl lead prev [] nodes = Inr nodes"
| "FindRecursionNodes_circle tbl lead prev (child_index # rest) nodes =
     (case RuleFindChildAtIndex tbl prev child_index of
        Inl e \<Rightarrow> Inl e
      | Inr (FNT_Rule rt) \<Rightarrow>
          (if rest = [] then
             (if rt = lead then Inr nodes else Inl (MASSERT ''rt == mLeadNode''))
           else FindRecursionNodes_circle tbl lead rt rest
                  (if IsRecursionNode nodes rt then nodes else nodes @ [rt]))
      | Inr _ \<Rightarrow> Inl (MASSERT ''node.mType == FNT_Rule''))"

fun FindRecursionNodes_circles ::
  "(rt_ref \<Rightarrow> RuleTable) \<Rightarrow> rt_ref \<Rightarrow> nat list list \<Rightarrow> rt_ref list \<Rightarrow> error + rt_ref list" where
  "FindRecursionNodes_circles tbl lead [] nodes = Inr nodes"
| "FindRecursionNodes_circles tbl lead (circle # circles) nodes =
     (case FindRecursionNodes_circle tbl lead lead circle nodes of
        Inl e \<Rightarrow> Inl e
      | Inr nodes' \<Rightarrow> FindRecursionNodes_circles tbl lead circles nodes')"

definition FindRecursionNodes :: "(rt_ref \<Rightarrow> RuleTable) \<Rightarrow> Recursion \<Rightarrow> error + Recursion" where
  "FindRecursionNodes tbl r =
     (case FindRecursionNodes_circles tbl (mLeadNode r) (mCircles r)
             (mRecursionNodes r @ [mLeadNode r]) of
        Inl e \<Rightarrow> Inl e
      | Inr nodes \<Rightarrow> Inr (r\<lparr>mRecursionNodes := nodes\<rparr>))"

text \<open>
  \<open>FindRuleOnCircle\<close>: the rule at position \<open>pos\<close> of a circle, position 0 being the
  lead node. The loop runs over \<open>circle[j..pos]\<close>.
\<close>

fun FindRuleOnCircle_loop ::
  "(rt_ref \<Rightarrow> RuleTable) \<Rightarrow> rt_ref \<Rightarrow> nat \<Rightarrow> nat \<Rightarrow> rt_ref \<Rightarrow> nat list \<Rightarrow> error + rt_ref" where
  "FindRuleOnCircle_loop tbl lead len j prev [] = Inr prev"
| "FindRuleOnCircle_loop tbl lead len j prev (child_index # rest) =
     (case RuleFindChildAtIndex tbl prev child_index of
        Inl e \<Rightarrow> Inl e
      | Inr (FNT_Rule rt) \<Rightarrow>
          (if j = len \<and> rt \<noteq> lead then Inl (MASSERT ''rt == mLeadNode'')
           else FindRuleOnCircle_loop tbl lead len (Suc j) rt rest)
      | Inr _ \<Rightarrow> Inl (MASSERT ''node.mType == FNT_Rule''))"

definition FindRuleOnCircle ::
  "(rt_ref \<Rightarrow> RuleTable) \<Rightarrow> Recursion \<Rightarrow> nat \<Rightarrow> nat \<Rightarrow> error + rt_ref" where
  "FindRuleOnCircle tbl r cir_idx pos =
     (if cir_idx < mNum r then
        (let circle = mCircles r ! cir_idx; len = length circle in
         if pos \<le> len then
           FindRuleOnCircle_loop tbl (mLeadNode r) len 1 (mLeadNode r) (take pos circle)
         else Inl (MASSERT ''pos <= len''))
      else Inl (Undefined ''mCircles read out of bounds''))"

text \<open>
  Reading \<open>mData.mEntry\<close>. The union \<open>mData\<close> of a sub-table entry holds this member.
  \<open>FindLeadFronNodes\<close> and \<open>FindFronNodes\<close> also read it from entries of another type
  (see below); the result is then the pointer that the bytes of the union stand for. It
  depends on the layout of the union, which no source at hand fixes, so the parameter
  \<open>as_mEntry\<close> of the functions gives it.

  The assignment \<open>data->mType = DT_Subtable\<close> changes the tag of the entry in the rule
  table and leaves the union as it is: from then on the entry is a sub-table whose
  \<open>mEntry\<close> is that pointer.
\<close>

definition mEntry :: "(TableData \<Rightarrow> rt_ref) \<Rightarrow> TableData \<Rightarrow> rt_ref" where
  "mEntry as_mEntry data = (case data of DT_Subtable entry \<Rightarrow> entry | _ \<Rightarrow> as_mEntry data)"

definition set_mType_DT_Subtable :: "(TableData \<Rightarrow> rt_ref) \<Rightarrow> TableData \<Rightarrow> TableData" where
  "set_mType_DT_Subtable as_mEntry data = DT_Subtable (mEntry as_mEntry data)"

text \<open>
  \<open>FindLeadFronNodes\<close>. For a Oneof lead node the source first collects
  \<open>circle[1]\<close> of every circle in \<open>circle_indices\<close>, then looks at every child \<open>i\<close> of the
  lead node. The search loop of the source compares the loop counter \<open>k\<close> with
  \<open>circle_indices.ValueAtIndex(k)\<close>; the child index \<open>i\<close> does not occur in it.

  The second test of a child is written \<open>data->mType = DT_Subtable\<close> in the source: an
  assignment, whose value is the enumerator \<open>DT_Subtable\<close>. The enumeration is declared
  in a header that is not at hand, so the integer value of the enumerator is the
  parameter \<open>vDT_Subtable\<close>. Every child that is not a token becomes a sub-table entry
  by this assignment; when \<open>vDT_Subtable\<close> is not zero the branch is taken and
  \<open>mData.mEntry\<close> of the child is read, otherwise the \<open>else\<close> branch with its assertion
  is.

  The loop over the children writes to the array \<open>mData\<close> of the lead node. The function
  of the loop takes the children still to visit and returns them as the loop leaves
  them, with the LeadFronNodes; \<open>FindLeadFronNodes\<close> returns the rule tables with the
  new array of the lead node.
\<close>

fun collect_circle_indices :: "nat list list \<Rightarrow> nat list \<Rightarrow> error + nat list" where
  "collect_circle_indices [] circle_indices = Inr circle_indices"
| "collect_circle_indices (circle # circles) circle_indices =
     (if length circle \<ge> 2 then
        collect_circle_indices circles (circle_indices @ [circle ! 0])
      else Inl (MASSERT ''Circle has no nodes?''))"

fun circle_indices_found :: "nat \<Rightarrow> nat list \<Rightarrow> bool" where
  "circle_indices_found k [] = False"
| "circle_indices_found k (v # rest) = (if k = v then True else circle_indices_found (Suc k) rest)"

fun FindLeadFronNodes_oneof ::
  "nat \<Rightarrow> (TableData \<Rightarrow> rt_ref) \<Rightarrow> nat list \<Rightarrow> TableData list \<Rightarrow> FronNode list
     \<Rightarrow> error + TableData list \<times> FronNode list" where
  "FindLeadFronNodes_oneof vDT_Subtable as_mEntry circle_indices [] fnodes = Inr ([], fnodes)"
| "FindLeadFronNodes_oneof vDT_Subtable as_mEntry circle_indices (data # rest) fnodes =
     (case data of
        DT_Token t \<Rightarrow>
          (case FindLeadFronNodes_oneof vDT_Subtable as_mEntry circle_indices rest
                  (fnodes @ [\<lparr>mPos = 0, fn_mData = FNT_Token t\<rparr>]) of
             Inl e \<Rightarrow> Inl e
           | Inr (rest', fnodes') \<Rightarrow> Inr (data # rest', fnodes'))
      | _ \<Rightarrow>
          (let data' = set_mType_DT_Subtable as_mEntry data in
           if vDT_Subtable \<noteq> 0 then
             (let ruletable = mEntry as_mEntry data' in
              case FindLeadFronNodes_oneof vDT_Subtable as_mEntry circle_indices rest
                     (if \<not> circle_indices_found 0 circle_indices
                      then fnodes @ [\<lparr>mPos = 0, fn_mData = FNT_Rule ruletable\<rparr>]
                      else fnodes) of
                Inl e \<Rightarrow> Inl e
              | Inr (rest', fnodes') \<Rightarrow> Inr (data' # rest', fnodes'))
           else Inl (MASSERT ''unexpected data type in ruletable.'')))"

fun FindLeadFronNodes_concat ::
  "nat \<Rightarrow> nat list list \<Rightarrow> FronNode list \<Rightarrow> error + FronNode list" where
  "FindLeadFronNodes_concat lead_num [] fnodes = Inr fnodes"
| "FindLeadFronNodes_concat lead_num (circle # circles) fnodes =
     (if length circle \<ge> 2 then
        (let circle_index = circle ! 0 in
         FindLeadFronNodes_concat lead_num circles
           (if circle_index < unsigned_pred lead_num
            then fnodes @ [\<lparr>mPos = 0, fn_mData = FNT_Concat (circle_index + 1)\<rparr>]
            else fnodes))
      else Inl (MASSERT ''Circle has no nodes?''))"

text \<open>
  For a lead node of type Zeroormore, Zeroorone or Data the second assertion of the
  source compares the pointer \<open>mCircles[0]\<close> with 1, which no address of a circle is.
\<close>

definition FindLeadFronNodes ::
  "(rt_ref \<Rightarrow> RuleTable) \<Rightarrow> nat \<Rightarrow> (TableData \<Rightarrow> rt_ref) \<Rightarrow> Recursion
     \<Rightarrow> error + (rt_ref \<Rightarrow> RuleTable) \<times> Recursion" where
  "FindLeadFronNodes tbl vDT_Subtable as_mEntry r =
     (let lead = tbl (mLeadNode r) in
      case rt_mType lead of
        ET_Oneof \<Rightarrow>
          (case collect_circle_indices (mCircles r) [] of
             Inl e \<Rightarrow> Inl e
           | Inr circle_indices \<Rightarrow>
               (case FindLeadFronNodes_oneof vDT_Subtable as_mEntry circle_indices (rt_mData lead)
                       (mLeadFronNodes r) of
                  Inl e \<Rightarrow> Inl e
                | Inr (children, fnodes) \<Rightarrow>
                    Inr (tbl(mLeadNode r := lead\<lparr>rt_mData := children\<rparr>),
                         r\<lparr>mLeadFronNodes := fnodes\<rparr>)))
      | ET_Concatenate \<Rightarrow>
          (case FindLeadFronNodes_concat (rt_mNum lead) (mCircles r) (mLeadFronNodes r) of
             Inl e \<Rightarrow> Inl e
           | Inr fnodes \<Rightarrow> Inr (tbl, r\<lparr>mLeadFronNodes := fnodes\<rparr>))
      | ET_Null \<Rightarrow> Inl (MASSERT ''Wrong node type in a circle'')
      | _ \<Rightarrow>
          (if rt_mNum lead \<noteq> 1 then Inl (MASSERT ''zeroorxxx node has more than one elements?'')
           else Inl (MASSERT ''(mCircles[0] == 1) && (mCircles[1] == 0)'')))"

text \<open>
  \<open>FindFronNodes(circle_index)\<close>. The loop over \<open>j = 1..len\<close> is a recursion on the
  child indices \<open>circle[j..len]\<close> still to follow; \<open>fron_nodes\<close> is the vector of the
  circle. The body of the \<open>switch\<close> on the type of \<open>prev\<close> is \<open>FindFronNodes_switch\<close>.
  The loop over the children of a Oneof rule has the same assignment
  \<open>data->mType = DT_Subtable\<close> as the one of \<open>FindLeadFronNodes\<close> and writes to the array
  \<open>mData\<close> of \<open>prev\<close>, so the rule tables are passed on from one step to the next.
\<close>

fun FindFronNodes_oneof ::
  "nat \<Rightarrow> (TableData \<Rightarrow> rt_ref) \<Rightarrow> rt_ref list \<Rightarrow> nat \<Rightarrow> rt_ref \<Rightarrow> TableData list
     \<Rightarrow> FronNode list \<Rightarrow> error + TableData list \<times> FronNode list" where
  "FindFronNodes_oneof vDT_Subtable as_mEntry rec_nodes j next [] fron_nodes = Inr ([], fron_nodes)"
| "FindFronNodes_oneof vDT_Subtable as_mEntry rec_nodes j next (data # rest) fron_nodes =
     (case data of
        DT_Token t \<Rightarrow>
          (case FindFronNodes_oneof vDT_Subtable as_mEntry rec_nodes j next rest
                  (fron_nodes @ [\<lparr>mPos = j, fn_mData = FNT_Token t\<rparr>]) of
             Inl e \<Rightarrow> Inl e
           | Inr (rest', fron_nodes') \<Rightarrow> Inr (data # rest', fron_nodes'))
      | _ \<Rightarrow>
          (let data' = set_mType_DT_Subtable as_mEntry data in
           if vDT_Subtable \<noteq> 0 then
             (let ruletable = mEntry as_mEntry data' in
              case FindFronNodes_oneof vDT_Subtable as_mEntry rec_nodes j next rest
                     (if \<not> IsRecursionNode rec_nodes ruletable \<and> ruletable \<noteq> next
                      then fron_nodes @ [\<lparr>mPos = j, fn_mData = FNT_Rule ruletable\<rparr>]
                      else fron_nodes) of
                Inl e \<Rightarrow> Inl e
              | Inr (rest', fron_nodes') \<Rightarrow> Inr (data' # rest', fron_nodes'))
           else Inl (MASSERT ''unexpected data type in ruletable.'')))"

definition FindFronNodes_switch ::
  "(rt_ref \<Rightarrow> RuleTable) \<Rightarrow> nat \<Rightarrow> (TableData \<Rightarrow> rt_ref) \<Rightarrow> rt_ref list \<Rightarrow> nat \<Rightarrow> rt_ref
     \<Rightarrow> rt_ref \<Rightarrow> nat \<Rightarrow> FronNode list \<Rightarrow> error + (rt_ref \<Rightarrow> RuleTable) \<times> FronNode list" where
  "FindFronNodes_switch tbl vDT_Subtable as_mEntry rec_nodes j prev next child_index fron_nodes =
     (case rt_mType (tbl prev) of
        ET_Oneof \<Rightarrow>
          (case FindFronNodes_oneof vDT_Subtable as_mEntry rec_nodes j next (rt_mData (tbl prev))
                  fron_nodes of
             Inl e \<Rightarrow> Inl e
           | Inr (children, fron_nodes') \<Rightarrow>
               Inr (tbl(prev := (tbl prev)\<lparr>rt_mData := children\<rparr>), fron_nodes'))
      | ET_Concatenate \<Rightarrow>
          (if child_index < unsigned_pred (rt_mNum (tbl prev))
           then Inr (tbl, fron_nodes @ [\<lparr>mPos = j, fn_mData = FNT_Concat (child_index + 1)\<rparr>])
           else Inr (tbl, fron_nodes))
      | ET_Null \<Rightarrow> Inl (MASSERT ''Wrong node type in a circle'')
      | _ \<Rightarrow>
          (if rt_mNum (tbl prev) \<noteq> 1
           then Inl (MASSERT ''zeroorxxx node has more than one elements?'')
           else if child_index \<noteq> 0 then Inl (MASSERT ''child_index == 0'')
           else Inr (tbl, fron_nodes)))"

fun FindFronNodes_loop ::
  "(rt_ref \<Rightarrow> RuleTable) \<Rightarrow> nat \<Rightarrow> (TableData \<Rightarrow> rt_ref) \<Rightarrow> rt_ref \<Rightarrow> rt_ref list \<Rightarrow> nat
     \<Rightarrow> rt_ref \<Rightarrow> nat list \<Rightarrow> FronNode list
     \<Rightarrow> error + (rt_ref \<Rightarrow> RuleTable) \<times> FronNode list" where
  "FindFronNodes_loop tbl vDT_Subtable as_mEntry lead rec_nodes j prev [] fron_nodes =
     Inr (tbl, fron_nodes)"
| "FindFronNodes_loop tbl vDT_Subtable as_mEntry lead rec_nodes j prev (child_index # rest)
       fron_nodes =
     (case RuleFindChildAtIndex tbl prev child_index of
        Inl e \<Rightarrow> Inl e
      | Inr (FNT_Rule next) \<Rightarrow>
          (if rest = [] \<and> next \<noteq> lead then Inl (MASSERT ''next == mLeadNode'')
           else if j = 1 then
             FindFronNodes_loop tbl vDT_Subtable as_mEntry lead rec_nodes (Suc j) next rest
               fron_nodes
           else
             (case FindFronNodes_switch tbl vDT_Subtable as_mEntry rec_nodes j prev next
                     child_index fron_nodes of
                Inl e \<Rightarrow> Inl e
              | Inr (tbl', fron_nodes') \<Rightarrow>
                  FindFronNodes_loop tbl' vDT_Subtable as_mEntry lead rec_nodes (Suc j) next rest
                    fron_nodes'))
      | Inr _ \<Rightarrow> Inl (MASSERT ''node.mType == FNT_Rule''))"

definition FindFronNodes_circle ::
  "(rt_ref \<Rightarrow> RuleTable) \<Rightarrow> nat \<Rightarrow> (TableData \<Rightarrow> rt_ref) \<Rightarrow> nat \<Rightarrow> Recursion
     \<Rightarrow> error + (rt_ref \<Rightarrow> RuleTable) \<times> Recursion" where
  "FindFronNodes_circle tbl vDT_Subtable as_mEntry circle_index r =
     (if circle_index < length (mFronNodes r) then
        (case FindFronNodes_loop tbl vDT_Subtable as_mEntry (mLeadNode r) (mRecursionNodes r) 1
                (mLeadNode r) (mCircles r ! circle_index) (mFronNodes r ! circle_index) of
           Inl e \<Rightarrow> Inl e
         | Inr (tbl', fron_nodes) \<Rightarrow>
             Inr (tbl', r\<lparr>mFronNodes := (mFronNodes r)[circle_index := fron_nodes]\<rparr>))
      else Inl (Undefined ''mFronNodes read out of bounds''))"

text \<open>\<open>FindFronNodes()\<close>: the loop \<open>for (i = 0; i < mNum; i++) FindFronNodes(i)\<close>, the
  first argument counting the iterations left.\<close>

fun FindFronNodes_from ::
  "nat \<Rightarrow> (rt_ref \<Rightarrow> RuleTable) \<Rightarrow> nat \<Rightarrow> (TableData \<Rightarrow> rt_ref) \<Rightarrow> nat \<Rightarrow> Recursion
     \<Rightarrow> error + (rt_ref \<Rightarrow> RuleTable) \<times> Recursion" where
  "FindFronNodes_from 0 tbl vDT_Subtable as_mEntry i r = Inr (tbl, r)"
| "FindFronNodes_from (Suc n) tbl vDT_Subtable as_mEntry i r =
     (case FindFronNodes_circle tbl vDT_Subtable as_mEntry i r of
        Inl e \<Rightarrow> Inl e
      | Inr (tbl', r') \<Rightarrow> FindFronNodes_from n tbl' vDT_Subtable as_mEntry (Suc i) r')"

definition FindFronNodes ::
  "(rt_ref \<Rightarrow> RuleTable) \<Rightarrow> nat \<Rightarrow> (TableData \<Rightarrow> rt_ref) \<Rightarrow> Recursion
     \<Rightarrow> error + (rt_ref \<Rightarrow> RuleTable) \<times> Recursion" where
  "FindFronNodes tbl vDT_Subtable as_mEntry r =
     FindFronNodes_from (mNum r) tbl vDT_Subtable as_mEntry 0 r"

text \<open>
  \<open>Recursion::Init\<close>, called by the constructor on an object whose vectors are empty.
  One vector of FronNodes is allocated for each of the \<open>gLeftRecursionsNum\<close> left
  recursions of the grammar. The result is the new object, with the rule tables as
  the two loops over the children of Oneof rules leave them.
\<close>

definition Init ::
  "(rt_ref \<Rightarrow> RuleTable) \<Rightarrow> nat \<Rightarrow> (TableData \<Rightarrow> rt_ref) \<Rightarrow> nat \<Rightarrow> LeftRecursion
     \<Rightarrow> error + (rt_ref \<Rightarrow> RuleTable) \<times> Recursion" where
  "Init tbl vDT_Subtable as_mEntry gLeftRecursionsNum lr =
     (let r = \<lparr>mLeadNode = mRuleTable lr, mCircles = lr_mCircles lr, mRecursionNodes = [],
                mLeadFronNodes = [], mFronNodes = replicate gLeftRecursionsNum []\<rparr> in
      case FindRecursionNodes tbl r of
        Inl e \<Rightarrow> Inl e
      | Inr r1 \<Rightarrow>
          (case FindLeadFronNodes tbl vDT_Subtable as_mEntry r1 of
             Inl e \<Rightarrow> Inl e
           | Inr (tbl1, r2) \<Rightarrow> FindFronNodes tbl1 vDT_Subtable as_mEntry r2))"

text \<open>
  For the proofs: the rule tables met when the child indices of a circle are followed
  from \<open>prev\<close>, \<open>None\<close> when a child is missing or is no rule table.
\<close>

fun circle_path :: "(rt_ref \<Rightarrow> RuleTable) \<Rightarrow> rt_ref \<Rightarrow> nat list \<Rightarrow> rt_ref list option" where
  "circle_path tbl prev [] = Some []"
| "circle_path tbl prev (child_index # rest) =
     (case RuleFindChildAtIndex tbl prev child_index of
        Inr (FNT_Rule rt) \<Rightarrow> map_option ((#) rt) (circle_path tbl rt rest)
      | _ \<Rightarrow> None)"

text \<open>
  The FronNodes that claim C2 describes for a Oneof rule on a circle whose successor on
  the circle is \<open>next\<close>: every token child, and every sub-table child that is neither
  \<open>next\<close> nor one of the recursion nodes, each with the position \<open>j\<close>.
\<close>

definition oneof_FronNodes :: "rt_ref list \<Rightarrow> nat \<Rightarrow> rt_ref \<Rightarrow> TableData list \<Rightarrow> FronNode list" where
  "oneof_FronNodes rec_nodes j next children =
     concat (map (\<lambda>data. case data of
                     DT_Token t \<Rightarrow> [\<lparr>mPos = j, fn_mData = FNT_Token t\<rparr>]
                   | DT_Subtable rt \<Rightarrow>
                       if rt \<notin> set rec_nodes \<and> rt \<noteq> next
                       then [\<lparr>mPos = j, fn_mData = FNT_Rule rt\<rparr>] else []
                   | _ \<Rightarrow> []) children)"

text \<open>
  For the proofs: the FronNodes that the loop over the children of a Oneof rule adds.
  Every child that is not a token counts, with the pointer read from it.
\<close>

definition recorded_FronNodes ::
  "(TableData \<Rightarrow> rt_ref) \<Rightarrow> rt_ref list \<Rightarrow> nat \<Rightarrow> rt_ref \<Rightarrow> TableData list \<Rightarrow> FronNode list" where
  "recorded_FronNodes as_mEntry rec_nodes j next children =
     concat (map (\<lambda>data. case data of
                     DT_Token t \<Rightarrow> [\<lparr>mPos = j, fn_mData = FNT_Token t\<rparr>]
                   | _ \<Rightarrow>
                       if mEntry as_mEntry data \<notin> set rec_nodes \<and> mEntry as_mEntry data \<noteq> next
                       then [\<lparr>mPos = j, fn_mData = FNT_Rule (mEntry as_mEntry data)\<rparr>] else [])
               children)"

text \<open>
  For the proofs: an entry as that loop leaves it, and the rule tables \<open>tbl'\<close> that
  differ from \<open>tbl\<close> at most in that the loop has run over the children of some rules.
\<close>

definition retyped_TableData :: "(TableData \<Rightarrow> rt_ref) \<Rightarrow> TableData \<Rightarrow> TableData" where
  "retyped_TableData as_mEntry data =
     (case data of DT_Token t \<Rightarrow> data | _ \<Rightarrow> set_mType_DT_Subtable as_mEntry data)"

definition retyped_tables ::
  "(TableData \<Rightarrow> rt_ref) \<Rightarrow> (rt_ref \<Rightarrow> RuleTable) \<Rightarrow> (rt_ref \<Rightarrow> RuleTable) \<Rightarrow> bool" where
  "retyped_tables as_mEntry tbl tbl' \<longleftrightarrow>
     (\<forall>n. rt_mType (tbl' n) = rt_mType (tbl n)
        \<and> (rt_mData (tbl' n) = rt_mData (tbl n)
           \<or> rt_mData (tbl' n) = map (retyped_TableData as_mEntry) (rt_mData (tbl n))))"

text \<open>
  The FronNode that claim C3 describes for a Concatenate rule with \<open>num\<close> children that
  the circle passes through at \<open>child_index\<close>: the rest of the concatenation, when
  there is one.
\<close>

definition concatenate_FronNodes :: "nat \<Rightarrow> nat \<Rightarrow> nat \<Rightarrow> FronNode list" where
  "concatenate_FronNodes j child_index num =
     (if child_index + 1 < num then [\<lparr>mPos = j, fn_mData = FNT_Concat (child_index + 1)\<rparr>] else [])"

text \<open>The FronNodes added by one iteration of the loop of \<open>FindFronNodes\<close>.\<close>

definition step_FronNodes ::
  "(TableData \<Rightarrow> rt_ref) \<Rightarrow> rt_ref list \<Rightarrow> nat \<Rightarrow> RuleTable \<Rightarrow> rt_ref \<Rightarrow> nat \<Rightarrow> FronNode list" where
  "step_FronNodes as_mEntry rec_nodes j prev next child_index =
     (case rt_mType prev of
        ET_Oneof \<Rightarrow> recorded_FronNodes as_mEntry rec_nodes j next (rt_mData prev)
      | ET_Concatenate \<Rightarrow> concatenate_FronNodes j child_index (rt_mNum prev)
      | _ \<Rightarrow> [])"

text \<open>
  For the examples: the pointers read from the entries that hold no sub-table are
  addresses of no rule table of the examples.
\<close>

definition example_as_mEntry :: "TableData \<Rightarrow> rt_ref" where
  "example_as_mEntry data = (case data of DT_Type t \<Rightarrow> 1000 + t | _ \<Rightarrow> 1000)"

text \<open>
  A grammar with two left recursions. Rule 0 is \<open>1 + t5 + 2\<close>, rule 1 is
  \<open>ONEOF(t3, type 7, 2, 0, 3)\<close>, rule 2 is \<open>ONEOF(t9, 4)\<close>, rule 3 is \<open>0 + 2\<close> and rule 4
  is \<open>2 + t6\<close>. The first recursion has the lead node 0 and the circles
  \<open>0 \<rightarrow> 1 \<rightarrow> 0\<close> and \<open>0 \<rightarrow> 1 \<rightarrow> 3 \<rightarrow> 0\<close>; the second one has the lead node 2 and the
  circle \<open>2 \<rightarrow> 4 \<rightarrow> 2\<close>. \<open>example_rec\<close> is the object that \<open>Init\<close> builds for the first
  one, and \<open>example_tbl'\<close> are the rule tables after it.
\<close>

definition example_tbl :: "rt_ref \<Rightarrow> RuleTable" where
  "example_tbl n =
     (if n = 0 then \<lparr>rt_mType = ET_Concatenate, rt_mData = [DT_Subtable 1, DT_Token 5, DT_Subtable 2]\<rparr>
      else if n = 1 then \<lparr>rt_mType = ET_Oneof,
                           rt_mData = [DT_Token 3, DT_Type 7, DT_Subtable 2, DT_Subtable 0,
                                       DT_Subtable 3]\<rparr>
      else if n = 2 then \<lparr>rt_mType = ET_Oneof, rt_mData = [DT_Token 9, DT_Subtable 4]\<rparr>
      else if n = 3 then \<lparr>rt_mType = ET_Concatenate, rt_mData = [DT_Subtable 0, DT_Subtable 2]\<rparr>
      else if n = 4 then \<lparr>rt_mType = ET_Concatenate, rt_mData = [DT_Subtable 2, DT_Token 6]\<rparr>
      else \<lparr>rt_mType = ET_Data, rt_mData = [DT_Token 9]\<rparr>)"

definition example_lr :: LeftRecursion where
  "example_lr = \<lparr>mRuleTable = 0, lr_mCircles = [[0, 3], [0, 4, 0]]\<rparr>"

definition example_rec :: Recursion where
  "example_rec =
     \<lparr>mLeadNode = 0, mCircles = [[0, 3], [0, 4, 0]], mRecursionNodes = [0, 1, 3],
      mLeadFronNodes = [\<lparr>mPos = 0, fn_mData = FNT_Concat 1\<rparr>, \<lparr>mPos = 0, fn_mData = FNT_Concat 1\<rparr>],
      mFronNodes = [[\<lparr>mPos = 2, fn_mData = FNT_Token 3\<rparr>, \<lparr>mPos = 2, fn_mData = FNT_Rule 1007\<rparr>,
                     \<lparr>mPos = 2, fn_mData = FNT_Rule 2\<rparr>],
                    [\<lparr>mPos = 2, fn_mData = FNT_Token 3\<rparr>, \<lparr>mPos = 2, fn_mData = FNT_Rule 1007\<rparr>,
                     \<lparr>mPos = 2, fn_mData = FNT_Rule 2\<rparr>, \<lparr>mPos = 3, fn_mData = FNT_Concat 1\<rparr>]]\<rparr>"

definition example_tbl' :: "rt_ref \<Rightarrow> RuleTable" where
  "example_tbl' =
     example_tbl(1 := \<lparr>rt_mType = ET_Oneof,
                        rt_mData = [DT_Token 3, DT_Subtable 1007, DT_Subtable 2, DT_Subtable 0,
                                    DT_Subtable 3]\<rparr>)"

text \<open>
  A grammar with one left recursion, of the kind of the array types of Java:
  rule 0 is \<open>1 + t5 + t6\<close> and rule 1 is \<open>ONEOF(type 3, t4, 0)\<close>. The lead node is rule 0
  and the circle is \<open>0 \<rightarrow> 1 \<rightarrow> 0\<close>, the child indices 0 and 2.
\<close>

definition type_tbl :: "rt_ref \<Rightarrow> RuleTable" where
  "type_tbl n =
     (if n = 0 then \<lparr>rt_mType = ET_Concatenate, rt_mData = [DT_Subtable 1, DT_Token 5, DT_Token 6]\<rparr>
      else if n = 1 then \<lparr>rt_mType = ET_Oneof, rt_mData = [DT_Type 3, DT_Token 4, DT_Subtable 0]\<rparr>
      else \<lparr>rt_mType = ET_Data, rt_mData = [DT_Token 9]\<rparr>)"

definition type_lr :: LeftRecursion where
  "type_lr = \<lparr>mRuleTable = 0, lr_mCircles = [[0, 2]]\<rparr>"

text \<open>
  The grammar of the comment before \<open>FindFronNodes\<close> in the source,
  \<open>rule Add: ONEOF(Id, Add '+' Id)\<close>: rule 0 is \<open>Add\<close>, rule 1 is the concatenation
  \<open>Add '+' Id\<close> and rule 2 is \<open>Id\<close>. Its circle is \<open>Add \<rightarrow> Add '+' Id \<rightarrow> Add\<close>, the
  child indices 1 and 0.
\<close>

definition Add_tbl :: "rt_ref \<Rightarrow> RuleTable" where
  "Add_tbl n =
     (if n = 0 then \<lparr>rt_mType = ET_Oneof, rt_mData = [DT_Subtable 2, DT_Subtable 1]\<rparr>
      else if n = 1 then \<lparr>rt_mType = ET_Concatenate,
                           rt_mData = [DT_Subtable 0, DT_Token 5, DT_Subtable 2]\<rparr>
      else \<lparr>rt_mType = ET_Data, rt_mData = [DT_Token 9]\<rparr>)"

text \<open>
  The same grammar with the alternatives the other way round,
  \<open>rule Sub: ONEOF(Sub '-' Id, Id, t7)\<close>: the circle has the child indices 0 and 0.
\<close>

definition Sub_tbl :: "rt_ref \<Rightarrow> RuleTable" where
  "Sub_tbl n =
     (if n = 0 then \<lparr>rt_mType = ET_Oneof, rt_mData = [DT_Subtable 1, DT_Subtable 2, DT_Token 7]\<rparr>
      else if n = 1 then \<lparr>rt_mType = ET_Concatenate,
                           rt_mData = [DT_Subtable 0, DT_Token 5, DT_Subtable 2]\<rparr>
      else \<lparr>rt_mType = ET_Data, rt_mData = [DT_Token 9]\<rparr>)"

section \<open>AST nodes and the tree pool (shared/src/ast.cpp)\<close>

text \<open>
  The operators of supported_operators.def; \<open>OPR_NA\<close> ends the enumeration. The
  enumerators \<open>Unary\<close>, \<open>Binary\<close>, \<open>Ternary\<close>, \<open>Pre\<close> and \<open>Post\<close> are declared in a header
  that is not at hand. The table joins them with \<open>|\<close> and \<open>Manipulate2Binary\<close> tests them
  with \<open>&\<close>: they are bit flags, and a property word \<open>mDesc\<close> is modelled as the set of
  its flags.
\<close>

datatype OprId =
    OPR_Add | OPR_Sub | OPR_Mul | OPR_Div | OPR_Mod | OPR_Inc | OPR_Dec
  | OPR_EQ | OPR_NE | OPR_GT | OPR_LT | OPR_GE | OPR_LE
  | OPR_Band | OPR_Bor | OPR_Bxor | OPR_Bcomp
  | OPR_Shl | OPR_Shr | OPR_Zext
  | OPR_Land | OPR_Lor | OPR_Not
  | OPR_Assign | OPR_AddAssign | OPR_SubAssign | OPR_MulAssign | OPR_DivAssign
  | OPR_ModAssign | OPR_ShlAssign | OPR_ShrAssign | OPR_BandAssign | OPR_BorAssign
  | OPR_BxorAssign | OPR_ZextAssign
  | OPR_Arrow | OPR_Select | OPR_Cond
  | OPR_NA

datatype OperatorProperty = Unary | Binary | Ternary | Pre | Post

record OperatorDesc =
  mOprId :: OprId
  mDesc :: "OperatorProperty set"

definition gOperatorDesc :: "OperatorDesc list" where
  "gOperatorDesc =
     [\<lparr>mOprId = OPR_Add, mDesc = {Binary, Unary}\<rparr>,
      \<lparr>mOprId = OPR_Sub, mDesc = {Binary, Unary}\<rparr>,
      \<lparr>mOprId = OPR_Mul, mDesc = {Binary}\<rparr>,
      \<lparr>mOprId = OPR_Div, mDesc = {Binary}\<rparr>,
      \<lparr>mOprId = OPR_Mod, mDesc = {Binary}\<rparr>,
      \<lparr>mOprId = OPR_Inc, mDesc = {Pre, Post}\<rparr>,
      \<lparr>mOprId = OPR_Dec, mDesc = {Pre, Post}\<rparr>,
      \<lparr>mOprId = OPR_EQ, mDesc = {Binary}\<rparr>,
      \<lparr>mOprId = OPR_NE, mDesc = {Binary}\<rparr>,
      \<lparr>mOprId = OPR_GT, mDesc = {Binary}\<rparr>,
      \<lparr>mOprId = OPR_LT, mDesc = {Binary}\<rparr>,
      \<lparr>mOprId = OPR_GE, mDesc = {Binary}\<rparr>,
      \<lparr>mOprId = OPR_LE, mDesc = {Binary}\<rparr>,
      \<lparr>mOprId = OPR_Band, mDesc = {Binary}\<rparr>,
      \<lparr>mOprId = OPR_Bor, mDesc = {Binary}\<rparr>,
      \<lparr>mOprId = OPR_Bxor, mDesc = {Unary}\<rparr>,
      \<lparr>mOprId = OPR_Bcomp, mDesc = {Unary}\<rparr>,
      \<lparr>mOprId = OPR_Shl, mDesc = {Binary}\<rparr>,
      \<lparr>mOprId = OPR_Shr, mDesc = {Binary}\<rparr>,
      \<lparr>mOprId = OPR_Zext, mDesc = {Binary}\<rparr>,
      \<lparr>mOprId = OPR_Land, mDesc = {Binary}\<rparr>,
      \<lparr>mOprId = OPR_Lor, mDesc = {Binary}\<rparr>,
      \<lparr>mOprId = OPR_Not, mDesc = {Unary}\<rparr>,
      \<lparr>mOprId = OPR_Assign, mDesc = {Binary}\<rparr>,
      \<lparr>mOprId = OPR_AddAssign, mDesc = {Binary}\<rparr>,
      \<lparr>mOprId = OPR_SubAssign, mDesc = {Binary}\<rparr>,
      \<lparr>mOprId = OPR_MulAssign, mDesc = {Binary}\<rparr>,
      \<lparr>mOprId = OPR_DivAssign, mDesc = {Binary}\<rparr>,
      \<lparr>mOprId = OPR_ModAssign, mDesc = {Binary}\<rparr>,
      \<lparr>mOprId = OPR_ShlAssign, mDesc = {Binary}\<rparr>,
      \<lparr>mOprId = OPR_ShrAssign, mDesc = {Binary}\<rparr>,
      \<lparr>mOprId = OPR_BandAssign, mDesc = {Binary}\<rparr>,
      \<lparr>mOprId = OPR_BorAssign, mDesc = {Binary}\<rparr>,
      \<lparr>mOprId = OPR_BxorAssign, mDesc = {Binary}\<rparr>,
      \<lparr>mOprId = OPR_ZextAssign, mDesc = {Binary}\<rparr>,
      \<lparr>mOprId = OPR_Arrow, mDesc = {Binary}\<rparr>,
      \<lparr>mOprId = OPR_Select, mDesc = {Ternary}\<rparr>,
      \<lparr>mOprId = OPR_Cond, mDesc = {Ternary}\<rparr>]"

fun GetOperatorProperty_loop :: "OperatorDesc list \<Rightarrow> OprId \<Rightarrow> error + OperatorProperty set" where
  "GetOperatorProperty_loop [] opr_id = Inl (MERROR ''I shouldn't reach this point.'')"
| "GetOperatorProperty_loop (d # rest) opr_id =
     (if mOprId d = opr_id then Inr (mDesc d) else GetOperatorProperty_loop rest opr_id)"

definition GetOperatorProperty :: "OprId \<Rightarrow> error + OperatorProperty set" where
  "GetOperatorProperty opr_id = GetOperatorProperty_loop gOperatorDesc opr_id"

text \<open>
  Modelled from the spec: the classes of the AST nodes are declared in ast.h, which is not
  part of the sources at hand. A \<open>TreeNode*\<close> is the address of a node in the tree pool,
  \<open>None\<close> is the null pointer; the tree pool is the list of the nodes allocated so far,
  and the address of a node is its index. A node has the link \<open>mParent\<close> and the fields
  of its kind; the kinds that ast.cpp does not look into in the functions below are
  \<open>OtherNode\<close>. The getters and setters of ast.h read and write the field of their name,
  a constructor leaves every pointer of the new node null and every list empty, and
  \<open>AddVar\<close>, \<open>AddExpr\<close> and \<open>AddChild\<close> put the node at the end of the list.
\<close>

type_synonym node_ref = nat

datatype TreeNodeData =
    IdentifierNode string
  | ParenthesisNode "node_ref option"
  | CastNode "node_ref option" "node_ref option"
  | UnaOperatorNode OprId "node_ref option"
  | BinOperatorNode OprId "node_ref option" "node_ref option"
  | VarListNode "node_ref list"
  | ExprListNode "node_ref list"
  | PassNode "node_ref list"
  | OtherNode

record TreeNode =
  mParent :: "node_ref option"
  mNode :: TreeNodeData

type_synonym TreePool = "TreeNode list"

text \<open>Reading the node a pointer points to.\<close>

definition deref :: "TreePool \<Rightarrow> node_ref option \<Rightarrow> error + TreeNode" where
  "deref pool p =
     (case p of
        None \<Rightarrow> Inl (Undefined ''null pointer'')
      | Some r \<Rightarrow> if r < length pool then Inr (pool ! r) else Inl (Undefined ''dangling pointer''))"

text \<open>\<open>mTreePool.NewTreeNode\<close> followed by the placement \<open>new\<close>: the new node is at the end
  of the pool.\<close>

definition NewTreeNode_pool :: "TreePool \<Rightarrow> TreeNodeData \<Rightarrow> node_ref \<times> TreePool" where
  "NewTreeNode_pool pool d = (length pool, pool @ [\<lparr>mParent = None, mNode = d\<rparr>])"

definition SetParent :: "TreePool \<Rightarrow> node_ref option \<Rightarrow> node_ref \<Rightarrow> error + TreePool" where
  "SetParent pool p parent =
     (case deref pool p of
        Inl e \<Rightarrow> Inl e
      | Inr node \<Rightarrow> Inr (pool[the p := node\<lparr>mParent := Some parent\<rparr>]))"

text \<open>\<open>ASTTree::BuildBinaryOperation\<close>, \<open>ASTTree::BuildPassNode\<close>.\<close>

definition BuildBinaryOperation ::
  "TreePool \<Rightarrow> node_ref option \<Rightarrow> node_ref option \<Rightarrow> OprId \<Rightarrow> error + node_ref \<times> TreePool" where
  "BuildBinaryOperation pool childA childB opr_id =
     (case NewTreeNode_pool pool (BinOperatorNode opr_id childA childB) of
        (n, pool1) \<Rightarrow>
          (case SetParent pool1 childA n of
             Inl e \<Rightarrow> Inl e
           | Inr pool2 \<Rightarrow>
               (case SetParent pool2 childB n of
                  Inl e \<Rightarrow> Inl e
                | Inr pool3 \<Rightarrow> Inr (n, pool3))))"

definition BuildPassNode :: "TreePool \<Rightarrow> node_ref \<times> TreePool" where
  "BuildPassNode pool = NewTreeNode_pool pool (PassNode [])"

text \<open>\<open>ASTTree::Manipulate2Cast\<close> and \<open>ASTTree::Manipulate2Binary\<close>; the result \<open>None\<close> is
  the NULL of the source.\<close>

definition Manipulate2Cast ::
  "TreePool \<Rightarrow> node_ref \<Rightarrow> node_ref \<Rightarrow> error + node_ref option \<times> TreePool" where
  "Manipulate2Cast pool child_a child_b =
     (case deref pool (Some child_a) of
        Inl e \<Rightarrow> Inl e
      | Inr a \<Rightarrow>
          (case mNode a of
             ParenthesisNode expr \<Rightarrow>
               (case NewTreeNode_pool pool (CastNode None None) of
                  (n, pool1) \<Rightarrow>
                    Inr (Some n, pool1[n := (pool1 ! n)\<lparr>mNode := CastNode expr (Some child_b)\<rparr>]))
           | _ \<Rightarrow> Inr (None, pool)))"

definition Manipulate2Binary ::
  "TreePool \<Rightarrow> node_ref \<Rightarrow> node_ref \<Rightarrow> error + node_ref option \<times> TreePool" where
  "Manipulate2Binary pool child_a child_b =
     (case deref pool (Some child_b) of
        Inl e \<Rightarrow> Inl e
      | Inr b \<Rightarrow>
          (case mNode b of
             UnaOperatorNode opr opnd \<Rightarrow>
               (case GetOperatorProperty opr of
                  Inl e \<Rightarrow> Inl e
                | Inr property \<Rightarrow>
                    if Binary \<in> property \<and> Unary \<in> property then
                      (case BuildBinaryOperation pool (Some child_a) opnd opr of
                         Inl e \<Rightarrow> Inl e
                       | Inr (binary, pool') \<Rightarrow> Inr (Some binary, pool'))
                    else Inr (None, pool))
           | _ \<Rightarrow> Inr (None, pool)))"

text \<open>
  An appeal node is a token or a rule table, with its sorted children and the AST node
  built for it (\<open>GetAstTreeNode\<close>, null when there is none). Only the fields that
  \<open>NewTreeNode\<close> and \<open>Manipulate\<close> read are modelled.
\<close>

datatype AppealData = AppealToken token_ref | AppealTable rt_ref

datatype AppealNode =
  AppealNode (mAppealData: AppealData) (mSortedChildren: "AppealNode list")
    (GetAstTreeNode: "node_ref option")

fun IsToken :: "AppealNode \<Rightarrow> bool" where
  "IsToken a = (case mAppealData a of AppealToken t \<Rightarrow> True | AppealTable rt \<Rightarrow> False)"

text \<open>The first loop of \<open>Manipulate\<close>: the AST nodes of the sorted children that have one.\<close>

fun collect_child_trees :: "AppealNode list \<Rightarrow> node_ref list \<Rightarrow> node_ref list" where
  "collect_child_trees [] child_trees = child_trees"
| "collect_child_trees (a_node # rest) child_trees =
     (case GetAstTreeNode a_node of
        Some t_node \<Rightarrow> collect_child_trees rest (child_trees @ [t_node])
      | None \<Rightarrow> collect_child_trees rest child_trees)"

text \<open>The last loop of \<open>Manipulate\<close>: \<open>pass->AddChild\<close> for every child tree.\<close>

definition AddChild :: "TreePool \<Rightarrow> node_ref \<Rightarrow> node_ref \<Rightarrow> error + TreePool" where
  "AddChild pool pass c =
     (case deref pool (Some pass) of
        Inl e \<Rightarrow> Inl e
      | Inr node \<Rightarrow>
          (case mNode node of
             PassNode children \<Rightarrow> Inr (pool[pass := node\<lparr>mNode := PassNode (children @ [c])\<rparr>])
           | _ \<Rightarrow> Inl (Undefined ''not a PassNode'')))"

fun AddChild_all :: "TreePool \<Rightarrow> node_ref \<Rightarrow> node_ref list \<Rightarrow> error + TreePool" where
  "AddChild_all pool pass [] = Inr pool"
| "AddChild_all pool pass (c # rest) =
     (case AddChild pool pass c of
        Inl e \<Rightarrow> Inl e
      | Inr pool' \<Rightarrow> AddChild_all pool' pass rest)"

text \<open>
  \<open>ASTTree::Manipulate\<close>. In the branch of one child tree the source tests the child
  tree against NULL again; \<open>child_trees\<close> holds no null pointer, so the \<open>MERROR\<close> of that
  test is never reached.
\<close>

definition Manipulate_pass ::
  "TreePool \<Rightarrow> node_ref list \<Rightarrow> error + node_ref option \<times> TreePool" where
  "Manipulate_pass pool child_trees =
     (if length child_trees > 0 then
        (case BuildPassNode pool of
           (pass, pool1) \<Rightarrow>
             (case AddChild_all pool1 pass child_trees of
                Inl e \<Rightarrow> Inl e
              | Inr pool2 \<Rightarrow> Inr (Some pass, pool2)))
      else Inr (None, pool))"

definition Manipulate ::
  "TreePool \<Rightarrow> AppealNode \<Rightarrow> error + node_ref option \<times> TreePool" where
  "Manipulate pool appeal_node =
     (let child_trees = collect_child_trees (mSortedChildren appeal_node) [] in
      if length child_trees = 1 then Inr (Some (child_trees ! 0), pool)
      else if length child_trees = 2 then
        (let child_a = child_trees ! 0; child_b = child_trees ! 1 in
         case Manipulate2Cast pool child_a child_b of
           Inl e \<Rightarrow> Inl e
         | Inr (Some sub_tree, pool') \<Rightarrow> Inr (Some sub_tree, pool')
         | Inr (None, pool') \<Rightarrow>
             (case Manipulate2Binary pool' child_a child_b of
                Inl e \<Rightarrow> Inl e
              | Inr (Some sub_tree, pool'') \<Rightarrow> Inr (Some sub_tree, pool'')
              | Inr (None, pool'') \<Rightarrow> Manipulate_pass pool'' child_trees))
      else Manipulate_pass pool child_trees)"

text \<open>
  \<open>ASTTree::NewTreeNode\<close>. The class \<open>ASTBuilder\<close> of \<open>gASTBuilder\<close> is not part of the
  sources at hand, so what it does is a parameter: \<open>CreateTokenTreeNode\<close> for a token,
  and \<open>RunAction\<close> for one round of the loop over the actions of the rule (clearing and
  gathering the parameters of the action, then \<open>gASTBuilder.Build()\<close>). Both work on the
  state \<open>'b\<close> of the builder and on the tree pool. \<open>actions\<close> gives the array
  \<open>mActions\<close> of a rule table, \<open>mNumAction\<close> being its length. The result of the last
  action is the sub tree.
\<close>

record Action =
  mId :: nat
  mElems :: "nat list"

fun NewTreeNode_actions ::
  "(Action \<Rightarrow> AppealNode \<Rightarrow> 'b \<times> TreePool \<Rightarrow> error + node_ref option \<times> 'b \<times> TreePool)
   \<Rightarrow> Action list \<Rightarrow> AppealNode \<Rightarrow> node_ref option \<Rightarrow> 'b \<times> TreePool
   \<Rightarrow> error + node_ref option \<times> 'b \<times> TreePool" where
  "NewTreeNode_actions RunAction [] appeal_node sub_tree st = Inr (sub_tree, st)"
| "NewTreeNode_actions RunAction (action # rest) appeal_node sub_tree st =
     (case RunAction action appeal_node st of
        Inl e \<Rightarrow> Inl e
      | Inr (sub_tree', st') \<Rightarrow> NewTreeNode_actions RunAction rest appeal_node sub_tree' st')"

definition NewTreeNode ::
  "(token_ref \<Rightarrow> 'b \<times> TreePool \<Rightarrow> error + node_ref option \<times> 'b \<times> TreePool)
   \<Rightarrow> (Action \<Rightarrow> AppealNode \<Rightarrow> 'b \<times> TreePool \<Rightarrow> error + node_ref option \<times> 'b \<times> TreePool)
   \<Rightarrow> (rt_ref \<Rightarrow> Action list) \<Rightarrow> AppealNode \<Rightarrow> 'b \<times> TreePool
   \<Rightarrow> error + node_ref option \<times> 'b \<times> TreePool" where
  "NewTreeNode CreateTokenTreeNode RunAction actions appeal_node st =
     (case mAppealData appeal_node of
        AppealToken token \<Rightarrow> CreateTokenTreeNode token st
      | AppealTable rule_table \<Rightarrow>
          (case NewTreeNode_actions RunAction (actions rule_table) appeal_node None st of
             Inl e \<Rightarrow> Inl e
           | Inr (Some sub_tree, st') \<Rightarrow> Inr (Some sub_tree, st')
           | Inr (None, (b, pool)) \<Rightarrow>
               (case Manipulate pool appeal_node of
                  Inl e \<Rightarrow> Inl e
                | Inr (sub_tree, pool') \<Rightarrow> Inr (sub_tree, (b, pool')))))"

definition no_token_tree :: "token_ref \<Rightarrow> unit \<times> TreePool \<Rightarrow> error + node_ref option \<times> unit \<times> TreePool" where
  "no_token_tree token st = Inr (None, st)"

definition no_action_tree ::
  "Action \<Rightarrow> AppealNode \<Rightarrow> unit \<times> TreePool \<Rightarrow> error + node_ref option \<times> unit \<times> TreePool" where
  "no_action_tree action appeal_node st = Inr (None, st)"

definition cast_pool :: TreePool where
  "cast_pool = [\<lparr>mParent = Some 1, mNode = IdentifierNode ''int''\<rparr>,
                \<lparr>mParent = None, mNode = ParenthesisNode (Some 0)\<rparr>,
                \<lparr>mParent = None, mNode = IdentifierNode ''x''\<rparr>]"

definition cast_appeal :: AppealNode where
  "cast_appeal = AppealNode (AppealTable 0)
     [AppealNode (AppealTable 1) [] (Some 1), AppealNode (AppealToken 4) [] None,
      AppealNode (AppealTable 2) [] (Some 2)] None"

definition binary_pool :: TreePool where
  "binary_pool = [\<lparr>mParent = None, mNode = IdentifierNode ''a''\<rparr>,
                  \<lparr>mParent = Some 2, mNode = IdentifierNode ''b''\<rparr>,
                  \<lparr>mParent = None, mNode = UnaOperatorNode OPR_Add (Some 1)\<rparr>]"

definition binary_appeal :: AppealNode where
  "binary_appeal = AppealNode (AppealTable 0)
     [AppealNode (AppealToken 3) [] (Some 0), AppealNode (AppealTable 1) [] (Some 2)] None"

definition one_child_appeal :: AppealNode where
  "one_child_appeal = AppealNode (AppealTable 0)
     [AppealNode (AppealToken 3) [] None, AppealNode (AppealTable 1) [] (Some 2)] None"

section \<open>The recursion detector (recdetect/rec_detect.cpp)\<close>

text \<open>
  Modelled from the spec: rec_detect.h, the tree container \<open>ContTree\<close> and
  \<open>RuleFindChild\<close> of ruletable_util are not part of the sources at hand, and
  container.h declares \<open>SmallVector::Back\<close> and \<open>PopBack\<close> without a body. The
  detector has the vectors that rec_detect.cpp uses; \<open>Back\<close> is the last element of a
  vector and \<open>PopBack\<close> removes it. A \<open>Recursion*\<close> is the index of the recursion in
  \<open>mRecursions\<close>. A node of the traversal tree is created by \<open>mTree.NewNode(rt, p)\<close> and
  then only read, through \<open>GetData\<close> and \<open>GetParent\<close>: the pointer to a tree node is
  modelled as the list of the rule tables on its chain of parents, its own first, and the
  null pointer is the empty list. \<open>RuleFindChild(parent, child, index)\<close> is the parameter
  \<open>RuleFindChild\<close>, which gives the index when the search succeeds.
\<close>

record DetectedRecursion =
  rec_mRuleTable :: rt_ref
  rec_mPaths :: "nat list list"

record Rule2Recursion =
  r2r_mRule :: rt_ref
  r2r_mRecursions :: "nat list"

record RecDetector =
  mInProcess :: "rt_ref list"
  mDone :: "rt_ref list"
  mRecursions :: "DetectedRecursion list"
  mRule2Recursions :: "Rule2Recursion list"

type_synonym tree_node = "rt_ref list"

text \<open>The search loop of \<open>IsInProcess\<close> and \<open>IsDone\<close>.\<close>

fun vector_has :: "rt_ref list \<Rightarrow> rt_ref \<Rightarrow> bool" where
  "vector_has [] t = False"
| "vector_has (v # rest) t = (if t = v then True else vector_has rest t)"

definition IsInProcess :: "RecDetector \<Rightarrow> rt_ref \<Rightarrow> bool" where
  "IsInProcess d t = vector_has (mInProcess d) t"

definition IsDone :: "RecDetector \<Rightarrow> rt_ref \<Rightarrow> bool" where
  "IsDone d t = vector_has (mDone d) t"

text \<open>\<open>AddRule2Recursion\<close>: the mapping of a rule is looked up, or created at the end, and
  gets the recursion unless it has it.\<close>

fun find_Rule2Recursion :: "Rule2Recursion list \<Rightarrow> rt_ref \<Rightarrow> nat option" where
  "find_Rule2Recursion [] rule = None"
| "find_Rule2Recursion (r2r # rest) rule =
     (if rule = r2r_mRule r2r then Some 0 else map_option Suc (find_Rule2Recursion rest rule))"

fun recursion_listed :: "nat list \<Rightarrow> nat \<Rightarrow> bool" where
  "recursion_listed [] rec = False"
| "recursion_listed (r # rest) rec = (if rec = r then True else recursion_listed rest rec)"

definition AddRule2Recursion :: "RecDetector \<Rightarrow> rt_ref \<Rightarrow> nat \<Rightarrow> RecDetector" where
  "AddRule2Recursion d rule rec =
     (let (m, maps) =
            (case find_Rule2Recursion (mRule2Recursions d) rule of
               Some i \<Rightarrow> (i, mRule2Recursions d)
             | None \<Rightarrow> (length (mRule2Recursions d),
                        mRule2Recursions d @ [\<lparr>r2r_mRule = rule, r2r_mRecursions = []\<rparr>]));
          map = maps ! m
      in if recursion_listed (r2r_mRecursions map) rec then d\<lparr>mRule2Recursions := maps\<rparr>
         else d\<lparr>mRule2Recursions :=
                  maps[m := map\<lparr>r2r_mRecursions := r2r_mRecursions map @ [rec]\<rparr>]\<rparr>)"

text \<open>\<open>FindOrCreateRecursion\<close>: the recursion of a rule, created at the end when there is
  none.\<close>

fun find_Recursion :: "DetectedRecursion list \<Rightarrow> rt_ref \<Rightarrow> nat option" where
  "find_Recursion [] rule = None"
| "find_Recursion (rec # rest) rule =
     (if rec_mRuleTable rec = rule then Some 0 else map_option Suc (find_Recursion rest rule))"

definition FindOrCreateRecursion :: "RecDetector \<Rightarrow> rt_ref \<Rightarrow> nat \<times> RecDetector" where
  "FindOrCreateRecursion d rule =
     (case find_Recursion (mRecursions d) rule of
        Some i \<Rightarrow> (i, d)
      | None \<Rightarrow> (length (mRecursions d),
                 d\<lparr>mRecursions := mRecursions d @ [\<lparr>rec_mRuleTable = rule, rec_mPaths = []\<rparr>]\<rparr>))"

text \<open>
  \<open>AddRecursion\<close>. Step 1 walks from the tree node \<open>p\<close> upwards to the node of \<open>rt\<close>
  and collects the rule tables met in \<open>node_list\<close>, after \<open>rt\<close> itself; the result is
  \<open>None\<close> when the walk ends at the null pointer, where \<open>target\<close> is still null. Step 2
  reads \<open>node_list\<close> from its end and finds the index of every rule in its parent rule.
  Step 4 adds the mappings in the same order.
\<close>

fun AddRecursion_walk :: "rt_ref \<Rightarrow> tree_node \<Rightarrow> rt_ref list \<Rightarrow> rt_ref list option" where
  "AddRecursion_walk rt [] node_list = None"
| "AddRecursion_walk rt (data # parent) node_list =
     (if data = rt then Some node_list else AddRecursion_walk rt parent (node_list @ [data]))"

fun AddRecursion_path ::
  "(rt_ref \<Rightarrow> rt_ref \<Rightarrow> nat option) \<Rightarrow> rt_ref \<Rightarrow> rt_ref list \<Rightarrow> nat list \<Rightarrow> error + nat list" where
  "AddRecursion_path RuleFindChild parent_rule [] path = Inr path"
| "AddRecursion_path RuleFindChild parent_rule (child_rule # rest) path =
     (case RuleFindChild parent_rule child_rule of
        None \<Rightarrow> Inl (MASSERT ''Cannot find child rule in parent rule.'')
      | Some index \<Rightarrow> AddRecursion_path RuleFindChild child_rule rest (path @ [index]))"

fun AddRecursion_mappings :: "RecDetector \<Rightarrow> rt_ref list \<Rightarrow> nat \<Rightarrow> RecDetector" where
  "AddRecursion_mappings d [] rec = d"
| "AddRecursion_mappings d (rule # rest) rec =
     AddRecursion_mappings (AddRule2Recursion d rule rec) rest rec"

definition AddRecursion ::
  "(rt_ref \<Rightarrow> rt_ref \<Rightarrow> nat option) \<Rightarrow> rt_ref \<Rightarrow> tree_node \<Rightarrow> RecDetector \<Rightarrow> error + RecDetector" where
  "AddRecursion RuleFindChild rt p d =
     (case AddRecursion_walk rt p [rt] of
        None \<Rightarrow> Inl (MASSERT ''target'')
      | Some node_list \<Rightarrow>
          (case AddRecursion_path RuleFindChild rt (rev node_list) [] of
             Inl e \<Rightarrow> Inl e
           | Inr path \<Rightarrow>
               (case FindOrCreateRecursion d rt of
                  (rec, d1) \<Rightarrow>
                    (let r = mRecursions d1 ! rec;
                         d2 = d1\<lparr>mRecursions :=
                                   (mRecursions d1)[rec := r\<lparr>rec_mPaths := rec_mPaths r @ [path]\<rparr>]\<rparr>
                     in Inr (AddRecursion_mappings d2 (rev node_list) rec)))))"

text \<open>
  \<open>DetectRuleTable\<close> and the three functions it calls are mutually recursive, and the
  graph of the rule tables has cycles. \<open>DetectOneof\<close>, \<open>DetectZeroormore\<close> and
  \<open>DetectConcatenate\<close> get the function they call back, \<open>DetectRuleTable\<close>, as their
  first argument \<open>detect\<close>; their loops over the children of the rule table run over the
  list \<open>mData\<close>. The first argument of \<open>DetectRuleTable\<close> is fuel: every call takes one
  unit, and the result is \<open>None\<close> when the fuel runs out.
\<close>

type_synonym detect_result = "(error + RecDetector) option"

fun DetectOneof ::
  "(rt_ref \<Rightarrow> tree_node \<Rightarrow> RecDetector \<Rightarrow> detect_result) \<Rightarrow> TableData list \<Rightarrow> tree_node
     \<Rightarrow> RecDetector \<Rightarrow> detect_result" where
  "DetectOneof detect [] p d = Some (Inr d)"
| "DetectOneof detect (DT_Subtable child # rest) p d =
     (case detect child p d of
        None \<Rightarrow> None
      | Some (Inl e) \<Rightarrow> Some (Inl e)
      | Some (Inr d') \<Rightarrow> DetectOneof detect rest p d')"
| "DetectOneof detect (data # rest) p d = DetectOneof detect rest p d"

fun DetectZeroormore ::
  "(rt_ref \<Rightarrow> tree_node \<Rightarrow> RecDetector \<Rightarrow> detect_result) \<Rightarrow> TableData list \<Rightarrow> tree_node
     \<Rightarrow> RecDetector \<Rightarrow> detect_result" where
  "DetectZeroormore detect [DT_Subtable child] p d = detect child p d"
| "DetectZeroormore detect [data] p d = Some (Inr d)"
| "DetectZeroormore detect children p d =
     Some (Inl (MASSERT ''zeroormore node has more than one elements?''))"

fun DetectConcatenate_rest ::
  "(rt_ref \<Rightarrow> tree_node \<Rightarrow> RecDetector \<Rightarrow> detect_result) \<Rightarrow> TableData list \<Rightarrow> tree_node
     \<Rightarrow> RecDetector \<Rightarrow> detect_result" where
  "DetectConcatenate_rest detect [] p d = Some (Inr d)"
| "DetectConcatenate_rest detect (DT_Subtable child # rest) p d =
     (if \<not> IsInProcess d child then
        (case detect child p d of
           None \<Rightarrow> None
         | Some (Inl e) \<Rightarrow> Some (Inl e)
         | Some (Inr d') \<Rightarrow> DetectConcatenate_rest detect rest p d')
      else DetectConcatenate_rest detect rest p d)"
| "DetectConcatenate_rest detect (data # rest) p d = DetectConcatenate_rest detect rest p d"

fun DetectConcatenate ::
  "(rt_ref \<Rightarrow> tree_node \<Rightarrow> RecDetector \<Rightarrow> detect_result) \<Rightarrow> TableData list \<Rightarrow> tree_node
     \<Rightarrow> RecDetector \<Rightarrow> detect_result" where
  "DetectConcatenate detect [] p d = Some (Inl (Undefined ''mData read out of bounds''))"
| "DetectConcatenate detect (DT_Subtable child # rest) p d =
     (case detect child p d of
        None \<Rightarrow> None
      | Some (Inl e) \<Rightarrow> Some (Inl e)
      | Some (Inr d') \<Rightarrow> DetectConcatenate_rest detect rest p d')"
| "DetectConcatenate detect (data # rest) p d = DetectConcatenate_rest detect rest p d"

text \<open>The end of \<open>DetectRuleTable\<close>, after the children: the rule table leaves the stack
  and is done.\<close>

definition DetectRuleTable_finish :: "rt_ref \<Rightarrow> RecDetector \<Rightarrow> error + RecDetector" where
  "DetectRuleTable_finish rt d =
     (if \<not> IsInProcess d rt then Inl (MASSERT ''IsInProcess(rt)'')
      else if last (mInProcess d) \<noteq> rt then Inl (MASSERT ''back == rt'')
      else
        (let d' = d\<lparr>mInProcess := butlast (mInProcess d)\<rparr> in
         if IsDone d' rt then Inl (MASSERT ''!IsDone(rt)'')
         else Inr (d'\<lparr>mDone := mDone d' @ [rt]\<rparr>)))"

definition DetectRuleTable_children ::
  "(rt_ref \<Rightarrow> tree_node \<Rightarrow> RecDetector \<Rightarrow> detect_result) \<Rightarrow> RuleTable \<Rightarrow> tree_node
     \<Rightarrow> RecDetector \<Rightarrow> detect_result" where
  "DetectRuleTable_children detect rule_table node d =
     (case rt_mType rule_table of
        ET_Oneof \<Rightarrow> DetectOneof detect (rt_mData rule_table) node d
      | ET_Data \<Rightarrow> DetectZeroormore detect (rt_mData rule_table) node d
      | ET_Zeroorone \<Rightarrow> DetectZeroormore detect (rt_mData rule_table) node d
      | ET_Zeroormore \<Rightarrow> DetectZeroormore detect (rt_mData rule_table) node d
      | ET_Concatenate \<Rightarrow> DetectConcatenate detect (rt_mData rule_table) node d
      | ET_Null \<Rightarrow> Some (Inr d))"

primrec DetectRuleTable ::
  "nat \<Rightarrow> (rt_ref \<Rightarrow> RuleTable) \<Rightarrow> (rt_ref \<Rightarrow> rt_ref \<Rightarrow> nat option) \<Rightarrow> rt_ref \<Rightarrow> tree_node
     \<Rightarrow> RecDetector \<Rightarrow> detect_result" where
  "DetectRuleTable 0 tbl RuleFindChild = (\<lambda>rt p d. None)"
| "DetectRuleTable (Suc fuel) tbl RuleFindChild = (\<lambda>rt p d.
     if IsDone d rt then Some (Inr d)
     else if IsInProcess d rt then Some (AddRecursion RuleFindChild rt p d)
     else
       (case DetectRuleTable_children (DetectRuleTable fuel tbl RuleFindChild) (tbl rt) (rt # p)
               (d\<lparr>mInProcess := mInProcess d @ [rt]\<rparr>) of
          None \<Rightarrow> None
        | Some (Inl e) \<Rightarrow> Some (Inl e)
        | Some (Inr d') \<Rightarrow> Some (DetectRuleTable_finish rt d')))"

text \<open>A \<open>RuleFindChild\<close> for the examples: the first child slot that holds the sub-table.\<close>

fun find_child_index :: "TableData list \<Rightarrow> rt_ref \<Rightarrow> nat option" where
  "find_child_index [] child = None"
| "find_child_index (data # rest) child =
     (if data = DT_Subtable child then Some 0 else map_option Suc (find_child_index rest child))"

definition example_RuleFindChild :: "(rt_ref \<Rightarrow> RuleTable) \<Rightarrow> rt_ref \<Rightarrow> rt_ref \<Rightarrow> nat option" where
  "example_RuleFindChild tbl parent child = find_child_index (rt_mData (tbl parent)) child"

definition empty_RecDetector :: RecDetector where
  "empty_RecDetector = \<lparr>mInProcess = [], mDone = [], mRecursions = [], mRule2Recursions = []\<rparr>"

definition Add_detected :: RecDetector where
  "Add_detected =
     \<lparr>mInProcess = [], mDone = [2, 1, 0],
      mRecursions = [\<lparr>rec_mRuleTable = 0, rec_mPaths = [[1, 0]]\<rparr>],
      mRule2Recursions = [\<lparr>r2r_mRule = 1, r2r_mRecursions = [0]\<rparr>,
                          \<lparr>r2r_mRule = 0, r2r_mRecursions = [0]\<rparr>]\<rparr>"

text \<open>What every call of the detector keeps: the stack as it was, and what was done.\<close>

definition keeps_stack :: "RecDetector \<Rightarrow> RecDetector \<Rightarrow> bool" where
  "keeps_stack d d' \<longleftrightarrow>
     mInProcess d' = mInProcess d \<and> set (mDone d) \<subseteq> set (mDone d')
     \<and> (distinct (mDone d) \<longrightarrow> distinct (mDone d'))"

definition detect_keeps :: "(rt_ref \<Rightarrow> tree_node \<Rightarrow> RecDetector \<Rightarrow> detect_result) \<Rightarrow> bool" where
  "detect_keeps detect \<longleftrightarrow> (\<forall>child p d d'. detect child p d = Some (Inr d') \<longrightarrow> keeps_stack d d')"

section \<open>Merging nodes into a list node (shared/src/ast.cpp)\<close>

text \<open>
  \<open>VarListNode::AddVar\<close> and \<open>ExprListNode::AddExpr\<close> on the list node \<open>this\<close>.
\<close>

definition AddVar :: "TreePool \<Rightarrow> node_ref \<Rightarrow> node_ref \<Rightarrow> error + TreePool" where
  "AddVar pool this n =
     (case deref pool (Some this) of
        Inl e \<Rightarrow> Inl e
      | Inr node \<Rightarrow>
          (case mNode node of
             VarListNode vars \<Rightarrow> Inr (pool[this := node\<lparr>mNode := VarListNode (vars @ [n])\<rparr>])
           | _ \<Rightarrow> Inl (Undefined ''not a VarListNode'')))"

definition AddExpr :: "TreePool \<Rightarrow> node_ref \<Rightarrow> node_ref \<Rightarrow> error + TreePool" where
  "AddExpr pool this n =
     (case deref pool (Some this) of
        Inl e \<Rightarrow> Inl e
      | Inr node \<Rightarrow>
          (case mNode node of
             ExprListNode exprs \<Rightarrow> Inr (pool[this := node\<lparr>mNode := ExprListNode (exprs @ [n])\<rparr>])
           | _ \<Rightarrow> Inl (Undefined ''not an ExprListNode'')))"

text \<open>
  \<open>Merge\<close> calls itself on the children of a Pass node, and the nodes are reached through
  pointers, so the functions take fuel: one unit for every call and for every round of a
  loop, and the result is \<open>None\<close> when the fuel runs out. The loops are written as the
  source has them, with the counter \<open>i\<close> and with the bound read from the pool in every
  round.

  The loop over the children of the Pass node \<open>p\<close> is the same in both \<open>Merge\<close>
  functions; it gets the \<open>Merge\<close> it calls as the argument \<open>merge\<close>.
\<close>

type_synonym merge_result = "(error + TreePool) option"

primrec Merge_pass ::
  "nat \<Rightarrow> (node_ref \<Rightarrow> TreePool \<Rightarrow> merge_result) \<Rightarrow> node_ref \<Rightarrow> nat \<Rightarrow> TreePool \<Rightarrow> merge_result" where
  "Merge_pass 0 merge p = (\<lambda>i pool. None)"
| "Merge_pass (Suc fuel) merge p = (\<lambda>i pool.
     case deref pool (Some p) of
       Inl e \<Rightarrow> Some (Inl e)
     | Inr node \<Rightarrow>
         (case mNode node of
            PassNode children \<Rightarrow>
              if i < length children then
                (case merge (children ! i) pool of
                   None \<Rightarrow> None
                 | Some (Inl e) \<Rightarrow> Some (Inl e)
                 | Some (Inr pool') \<Rightarrow> Merge_pass fuel merge p (Suc i) pool')
              else Some (Inr pool)
          | _ \<Rightarrow> Some (Inl (Undefined ''not a PassNode''))))"

text \<open>\<open>VarListNode::Merge\<close>, with its loop over the variables of another VarList.\<close>

primrec VarListNode_Merge_vars ::
  "nat \<Rightarrow> node_ref \<Rightarrow> node_ref \<Rightarrow> nat \<Rightarrow> TreePool \<Rightarrow> merge_result" where
  "VarListNode_Merge_vars 0 this varlist = (\<lambda>i pool. None)"
| "VarListNode_Merge_vars (Suc fuel) this varlist = (\<lambda>i pool.
     case deref pool (Some varlist) of
       Inl e \<Rightarrow> Some (Inl e)
     | Inr node \<Rightarrow>
         (case mNode node of
            VarListNode vars \<Rightarrow>
              if i < length vars then
                (case AddVar pool this (vars ! i) of
                   Inl e \<Rightarrow> Some (Inl e)
                 | Inr pool' \<Rightarrow> VarListNode_Merge_vars fuel this varlist (Suc i) pool')
              else Some (Inr pool)
          | _ \<Rightarrow> Some (Inl (Undefined ''not a VarListNode''))))"

primrec VarListNode_Merge :: "nat \<Rightarrow> node_ref \<Rightarrow> node_ref \<Rightarrow> TreePool \<Rightarrow> merge_result" where
  "VarListNode_Merge 0 this = (\<lambda>n pool. None)"
| "VarListNode_Merge (Suc fuel) this = (\<lambda>n pool.
     case deref pool (Some n) of
       Inl e \<Rightarrow> Some (Inl e)
     | Inr node \<Rightarrow>
         (case mNode node of
            IdentifierNode name \<Rightarrow> Some (AddVar pool this n)
          | VarListNode vars \<Rightarrow> VarListNode_Merge_vars fuel this n 0 pool
          | PassNode children \<Rightarrow> Merge_pass fuel (VarListNode_Merge fuel this) n 0 pool
          | _ \<Rightarrow> Some (Inl (MERROR ''VarListNode cannot merge a non-identifier or non-varlist node''))))"

text \<open>\<open>ExprListNode::Merge\<close>, with its loop over the expressions of another ExprList.\<close>

primrec ExprListNode_Merge_exprs ::
  "nat \<Rightarrow> node_ref \<Rightarrow> node_ref \<Rightarrow> nat \<Rightarrow> TreePool \<Rightarrow> merge_result" where
  "ExprListNode_Merge_exprs 0 this expr_list = (\<lambda>i pool. None)"
| "ExprListNode_Merge_exprs (Suc fuel) this expr_list = (\<lambda>i pool.
     case deref pool (Some expr_list) of
       Inl e \<Rightarrow> Some (Inl e)
     | Inr node \<Rightarrow>
         (case mNode node of
            ExprListNode exprs \<Rightarrow>
              if i < length exprs then
                (case AddExpr pool this (exprs ! i) of
                   Inl e \<Rightarrow> Some (Inl e)
                 | Inr pool' \<Rightarrow> ExprListNode_Merge_exprs fuel this expr_list (Suc i) pool')
              else Some (Inr pool)
          | _ \<Rightarrow> Some (Inl (Undefined ''not an ExprListNode''))))"

primrec ExprListNode_Merge :: "nat \<Rightarrow> node_ref \<Rightarrow> node_ref \<Rightarrow> TreePool \<Rightarrow> merge_result" where
  "ExprListNode_Merge 0 this = (\<lambda>n pool. None)"
| "ExprListNode_Merge (Suc fuel) this = (\<lambda>n pool.
     case deref pool (Some n) of
       Inl e \<Rightarrow> Some (Inl e)
     | Inr node \<Rightarrow>
         (case mNode node of
            ExprListNode exprs \<Rightarrow> ExprListNode_Merge_exprs fuel this n 0 pool
          | PassNode children \<Rightarrow> Merge_pass fuel (ExprListNode_Merge fuel this) n 0 pool
          | _ \<Rightarrow> Some (AddExpr pool this n)))"

text \<open>
  The children recursively contained in a Pass node, in the words of claim C7: the
  children of the node in order, a child that is a Pass node standing for its own
  children. The first argument bounds the depth of the nesting; the result is \<open>None\<close>
  when the nesting is deeper or a pointer leaves the pool.
\<close>

primrec pass_children :: "nat \<Rightarrow> TreePool \<Rightarrow> node_ref \<Rightarrow> node_ref list option" where
  "pass_children 0 pool = (\<lambda>n. None)"
| "pass_children (Suc depth) pool = (\<lambda>n.
     if n < length pool then
       (case mNode (pool ! n) of
          PassNode children \<Rightarrow> map_option concat (those (map (pass_children depth pool) children))
        | _ \<Rightarrow> Some [n])
     else None)"

text \<open>What the code adds for one of these children: the elements of a list node of the
  kind of the receiving list, and the node itself otherwise.\<close>

definition merged_vars :: "TreePool \<Rightarrow> node_ref \<Rightarrow> node_ref list" where
  "merged_vars pool n = (case mNode (pool ! n) of VarListNode vars \<Rightarrow> vars | _ \<Rightarrow> [n])"

definition merged_exprs :: "TreePool \<Rightarrow> node_ref \<Rightarrow> node_ref list" where
  "merged_exprs pool n = (case mNode (pool ! n) of ExprListNode exprs \<Rightarrow> exprs | _ \<Rightarrow> [n])"

definition mergeable_var :: "TreePool \<Rightarrow> node_ref \<Rightarrow> bool" where
  "mergeable_var pool n =
     (case mNode (pool ! n) of IdentifierNode name \<Rightarrow> True | VarListNode vars \<Rightarrow> True | _ \<Rightarrow> False)"

text \<open>
  A pool for the examples: the identifiers \<open>a\<close>, \<open>b\<close>, \<open>c\<close>, an ExprList and a VarList of
  \<open>a\<close> and \<open>b\<close>, a node of another kind, Pass nodes around them, and two empty lists that
  receive the merge.
\<close>

definition merge_pool :: TreePool where
  "merge_pool =
     [\<lparr>mParent = None, mNode = IdentifierNode ''a''\<rparr>,
      \<lparr>mParent = None, mNode = IdentifierNode ''b''\<rparr>,
      \<lparr>mParent = None, mNode = IdentifierNode ''c''\<rparr>,
      \<lparr>mParent = None, mNode = ExprListNode [0, 1]\<rparr>,
      \<lparr>mParent = None, mNode = VarListNode [0, 1]\<rparr>,
      \<lparr>mParent = None, mNode = OtherNode\<rparr>,
      \<lparr>mParent = None, mNode = PassNode [2, 5]\<rparr>,
      \<lparr>mParent = None, mNode = PassNode [3, 6]\<rparr>,
      \<lparr>mParent = None, mNode = PassNode [4, 2]\<rparr>,
      \<lparr>mParent = None, mNode = PassNode [0, 8]\<rparr>,
      \<lparr>mParent = None, mNode = ExprListNode []\<rparr>,
      \<lparr>mParent = None, mNode = VarListNode []\<rparr>]"

text \<open>For the proofs: the pool with the list of the list node \<open>this\<close> replaced.\<close>

definition put_list ::
  "(node_ref list \<Rightarrow> TreeNodeData) \<Rightarrow> TreePool \<Rightarrow> node_ref \<Rightarrow> node_ref list \<Rightarrow> TreePool" where
  "put_list mk pool this xs = pool[this := (pool ! this)\<lparr>mNode := mk xs\<rparr>]"

text \<open>A bound for the fuel: the longest list of a node of the pool.\<close>

fun node_list_length :: "TreeNodeData \<Rightarrow> nat" where
  "node_list_length (VarListNode vars) = length vars"
| "node_list_length (ExprListNode exprs) = length exprs"
| "node_list_length (PassNode children) = length children"
| "node_list_length node = 0"

definition max_list_length :: "TreePool \<Rightarrow> nat" where
  "max_list_length pool = foldr (\<lambda>node m. max (node_list_length (mNode node)) m) pool 0"

section \<open>Properties of the Guamian container\<close>

lemma FindKnob_Some_less: "FindKnob header key = Some i \<Longrightarrow> i < length header"
  by (induction header arbitrary: i) (auto split: if_splits)

lemma FindKnob_Some_key: "FindKnob header key = Some i \<Longrightarrow> mData (header ! i) = key"
  by (induction header arbitrary: i) (auto split: if_splits)

lemma FindKnob_update_children:
  "FindKnob (header[i := (header ! i)\<lparr>mChildren := cs\<rparr>]) key = FindKnob header key"
proof (induction header arbitrary: i)
  case Nil
  then show ?case by simp
next
  case (Cons knob rest)
  then show ?case by (cases i) simp_all
qed

lemma FindElem_knob_iff: "FindElem_knob es data \<longleftrightarrow> data \<in> set es"
  by (induction es) auto

lemma AddElem_knob_found:
  "FindElem_knob (mChildren knob) data \<Longrightarrow> AddElem_knob knob data = knob"
  by (simp add: AddElem_knob_def)

lemma AddElem_knob_finds: "FindElem_knob (mChildren (AddElem_knob knob data)) data"
  by (simp add: AddElem_knob_def)

lemma AddElem_knob_idem: "AddElem_knob (AddElem_knob knob data) data = AddElem_knob knob data"
  by (simp add: AddElem_knob_found AddElem_knob_finds)

lemma AddElem_knob_key: "mData (AddElem_knob knob data) = mData knob"
  by (simp add: AddElem_knob_def)

lemma AddElem_knob_as_update:
  "AddElem_knob knob data = knob\<lparr>mChildren := mChildren (AddElem_knob knob data)\<rparr>"
  by (simp add: AddElem_knob_def)

lemma AddElem_present:
  assumes "FindElem header key data"
  shows "AddElem header key data = header"
proof -
  from assms obtain i where i: "FindKnob header key = Some i"
    and f: "FindElem_knob (mChildren (header ! i)) data"
    by (auto simp: FindElem_def split: option.splits)
  then show ?thesis
    by (simp add: AddElem_def FindOrCreateKnob_def AddElem_knob_found)
qed

lemma FindElem_AddElem: "FindElem (AddElem header key data) key data"
proof (cases "FindKnob header key")
  case None
  then show ?thesis
    by (simp add: AddElem_def FindOrCreateKnob_def FindElem_def AddElem_knob_finds
        AddElem_knob_key)
next
  case (Some i)
  have "FindKnob (header[i := AddElem_knob (header ! i) data]) key = Some i"
    using FindKnob_update_children [of header i _ key] Some
    by (metis AddElem_knob_as_update)
  with Some show ?thesis
    by (simp add: AddElem_def FindOrCreateKnob_def FindElem_def AddElem_knob_finds
        FindKnob_Some_less)
qed

lemma AddElem_knob_distinct:
  "distinct (mChildren knob) \<Longrightarrow> distinct (mChildren (AddElem_knob knob data))"
  by (simp add: AddElem_knob_def FindElem_knob_iff)

lemma AddElem_distinct:
  assumes "\<forall>knob \<in> set header. distinct (mChildren knob)"
  shows "\<forall>knob \<in> set (AddElem header key data). distinct (mChildren knob)"
proof
  fix knob assume k: "knob \<in> set (AddElem header key data)"
  obtain i knobs where f: "FindOrCreateKnob header key = (i, knobs)" by (cases "FindOrCreateKnob header key")
  then have i: "i < length knobs" and d: "\<forall>knob \<in> set knobs. distinct (mChildren knob)"
    using assms
    by (auto simp: FindOrCreateKnob_def NewKnob_def FindKnob_Some_less split: option.splits)
  from k f have "knob \<in> set (knobs[i := AddElem_knob (knobs ! i) data])"
    by (simp add: AddElem_def)
  then have "knob = AddElem_knob (knobs ! i) data \<or> knob \<in> set knobs"
    using set_update_subset_insert [of knobs i] by auto
  with i d show "distinct (mChildren knob)" by (auto intro: AddElem_knob_distinct)
qed

text \<open>
  Claim C9. \<open>Guamian::AddElem\<close> is idempotent: adding \<open>(key, data)\<close> when \<open>data\<close> is
  already an element under \<open>key\<close> leaves the whole container as it was, hence a second
  \<open>AddElem(key, data)\<close> changes nothing: neither the number of elements under the key
  nor the answer of a later \<open>FindElem\<close> on any key and datum. No element is twice under
  a key after \<open>AddElem\<close> when none was before.
\<close>

theorem AddElem_idempotent:
  "(FindElem header key data \<longrightarrow> AddElem header key data = header)
   \<and> AddElem (AddElem header key data) key data = AddElem header key data
   \<and> PairedNumOfElem (AddElem (AddElem header key data) key data) key
       = PairedNumOfElem (AddElem header key data) key
   \<and> FindElem (AddElem (AddElem header key data) key data) key' data'
       = FindElem (AddElem header key data) key' data'
   \<and> ((\<forall>knob \<in> set header. distinct (mChildren knob)) \<longrightarrow>
        (\<forall>knob \<in> set (AddElem header key data). distinct (mChildren knob)))"
  using AddElem_present [OF FindElem_AddElem [of header key data]] AddElem_distinct [of header key data]
  by (simp add: AddElem_present)

theorem AddElem_idempotent_witness:
  "FindElem [\<lparr>mAttr = 0, mData = (7::nat), mChildren = [3::nat, 5]\<rparr>] 7 5
   \<and> AddElem [\<lparr>mAttr = 0, mData = (7::nat), mChildren = [3::nat, 5]\<rparr>] 7 5
       = [\<lparr>mAttr = 0, mData = 7, mChildren = [3, 5]\<rparr>]
   \<and> AddElem [\<lparr>mAttr = 0, mData = (7::nat), mChildren = [3::nat, 5]\<rparr>] 7 9
       = [\<lparr>mAttr = 0, mData = 7, mChildren = [9, 3, 5]\<rparr>]
   \<and> distinct (mChildren
         (AddElem [\<lparr>mAttr = 0, mData = (7::nat), mChildren = [3::nat, 5]\<rparr>] 7 9 ! 0))"
proof -
  let ?H = "[\<lparr>mAttr = 0, mData = (7::nat), mChildren = [3::nat, 5]\<rparr>]"
  have h: "FindElem ?H 7 5" by (simp add: FindElem_def)
  have d: "\<forall>knob \<in> set ?H. distinct (mChildren knob)" by simp
  have e: "AddElem ?H 7 9 = [\<lparr>mAttr = 0, mData = 7, mChildren = [9, 3, 5]\<rparr>]"
    by (simp add: AddElem_def FindOrCreateKnob_def AddElem_knob_def)
  from h AddElem_idempotent [of ?H 7 5] have p: "AddElem ?H 7 5 = ?H" by blast
  from d AddElem_idempotent [of ?H 7 9]
  have "\<forall>knob \<in> set (AddElem ?H 7 9). distinct (mChildren knob)" by blast
  moreover have "AddElem ?H 7 9 ! 0 \<in> set (AddElem ?H 7 9)" unfolding e by simp
  ultimately have "distinct (mChildren (AddElem ?H 7 9 ! 0))" by blast
  with h p e show ?thesis by blast
qed

section \<open>Properties of the recursion descriptors\<close>

lemma IsRecursionNode_iff: "IsRecursionNode nodes rt \<longleftrightarrow> rt \<in> set nodes"
  by (induction nodes) auto

lemma circle_path_length: "circle_path tbl prev cs = Some path \<Longrightarrow> length path = length cs"
  by (induction cs arbitrary: prev path) (auto split: sum.splits FronData.splits)

lemma FindRecursionNodes_circle_path:
  "FindRecursionNodes_circle tbl lead prev cs nodes = Inr nodes' \<Longrightarrow>
   \<exists>path. circle_path tbl prev cs = Some path \<and> (cs \<noteq> [] \<longrightarrow> last path = lead)
      \<and> set nodes' = set nodes \<union> set (butlast path)
      \<and> (distinct nodes \<longrightarrow> distinct nodes')"
proof (induction cs arbitrary: prev nodes)
  case Nil
  then show ?case by simp
next
  case (Cons ci rest)
  from Cons.prems obtain rt where rt: "RuleFindChildAtIndex tbl prev ci = Inr (FNT_Rule rt)"
    by (auto split: sum.splits FronData.splits)
  show ?case
  proof (cases "rest = []")
    case True
    with Cons.prems rt show ?thesis by (auto split: if_splits)
  next
    case False
    let ?n1 = "if IsRecursionNode nodes rt then nodes else nodes @ [rt]"
    from Cons.prems rt False
    have "FindRecursionNodes_circle tbl lead rt rest ?n1 = Inr nodes'" by simp
    from Cons.IH [OF this] obtain path where
      p: "circle_path tbl rt rest = Some path" "last path = lead"
         "set nodes' = set ?n1 \<union> set (butlast path)" "distinct ?n1 \<longrightarrow> distinct nodes'"
      using False by auto
    from p(1) False have ne: "path \<noteq> []" using circle_path_length by fastforce
    have "set ?n1 = insert rt (set nodes)" by (auto simp: IsRecursionNode_iff)
    moreover have "distinct nodes \<longrightarrow> distinct ?n1" by (auto simp: IsRecursionNode_iff)
    ultimately show ?thesis using p rt ne by auto
  qed
qed

lemma FindRuleOnCircle_loop_path:
  "circle_path tbl prev cs = Some path \<Longrightarrow> (cs \<noteq> [] \<longrightarrow> last path = lead) \<Longrightarrow>
   j + length cs = Suc len \<Longrightarrow> k \<le> length cs \<Longrightarrow>
   FindRuleOnCircle_loop tbl lead len j prev (take k cs) = Inr ((prev # path) ! k)"
proof (induction cs arbitrary: prev path j k)
  case Nil
  then show ?case by simp
next
  case (Cons ci rest)
  show ?case
  proof (cases k)
    case 0
    then show ?thesis by simp
  next
    case (Suc k')
    from Cons.prems(1) obtain rt path' where
      rt: "RuleFindChildAtIndex tbl prev ci = Inr (FNT_Rule rt)"
      and p': "circle_path tbl rt rest = Some path'" and path: "path = rt # path'"
      by (auto split: sum.splits FronData.splits)
    have len': "length path' = length rest" using p' by (rule circle_path_length)
    have chk: "j = len \<Longrightarrow> rt = lead"
    proof -
      assume "j = len"
      with Cons.prems(3) have "rest = []" by simp
      with len' have "path' = []" by simp
      with Cons.prems(2) path show "rt = lead" by simp
    qed
    have l: "rest \<noteq> [] \<longrightarrow> last path' = lead"
      using Cons.prems(2) path len' by auto
    have "FindRuleOnCircle_loop tbl lead len (Suc j) rt (take k' rest) = Inr ((rt # path') ! k')"
      using Cons.IH [OF p' l] Cons.prems(3,4) Suc by simp
    with rt chk Suc path show ?thesis by auto
  qed
qed

lemma FindRecursionNodes_circles_path:
  "FindRecursionNodes_circles tbl lead circles nodes = Inr nodes' \<Longrightarrow>
   (\<forall>c \<in> set circles. \<exists>path. circle_path tbl lead c = Some path \<and> (c \<noteq> [] \<longrightarrow> last path = lead))
   \<and> set nodes' = set nodes \<union> (\<Union>c \<in> set circles. set (butlast (the (circle_path tbl lead c))))
   \<and> (distinct nodes \<longrightarrow> distinct nodes')"
proof (induction circles arbitrary: nodes)
  case Nil
  then show ?case by simp
next
  case (Cons c circles)
  from Cons.prems obtain n1 where
    n1: "FindRecursionNodes_circle tbl lead lead c nodes = Inr n1"
    and rest: "FindRecursionNodes_circles tbl lead circles n1 = Inr nodes'"
    by (auto split: sum.splits)
  from FindRecursionNodes_circle_path [OF n1] obtain path where
    p: "circle_path tbl lead c = Some path" "c \<noteq> [] \<longrightarrow> last path = lead"
       "set n1 = set nodes \<union> set (butlast path)" "distinct nodes \<longrightarrow> distinct n1"
    by blast
  from Cons.IH [OF rest] p show ?case by auto
qed


lemma TableData_to_FronData_retyped:
  "TableData_to_FronData d = Inr x \<Longrightarrow> TableData_to_FronData (retyped_TableData a d) = Inr x"
  by (cases d)
     (simp_all add: TableData_to_FronData_def retyped_TableData_def set_mType_DT_Subtable_def
        mEntry_def)

lemma mEntry_retyped: "mEntry a (retyped_TableData a d) = mEntry a d"
  by (cases d) (simp_all add: retyped_TableData_def set_mType_DT_Subtable_def mEntry_def)

lemma retyped_TableData_idem:
  "retyped_TableData a (retyped_TableData a d) = retyped_TableData a d"
  by (cases d) (simp_all add: retyped_TableData_def set_mType_DT_Subtable_def mEntry_def)

lemma retyped_TableData_id:
  "(\<exists>t. d = DT_Token t) \<or> (\<exists>rt. d = DT_Subtable rt) \<Longrightarrow> retyped_TableData a d = d"
  by (auto simp: retyped_TableData_def set_mType_DT_Subtable_def mEntry_def)

lemma retyped_tables_refl: "retyped_tables a tbl tbl"
  by (simp add: retyped_tables_def)

lemma retyped_tables_upd:
  assumes "retyped_tables a tbl0 tbl"
  shows "retyped_tables a tbl0
           (tbl(p := (tbl p)\<lparr>rt_mData := map (retyped_TableData a) (rt_mData (tbl p))\<rparr>))"
proof -
  have "map (retyped_TableData a) (map (retyped_TableData a) xs) = map (retyped_TableData a) xs"
    for xs by (simp add: retyped_TableData_idem)
  with assms show ?thesis unfolding retyped_tables_def by (metis fun_upd_apply RuleTable.select_convs RuleTable.surjective RuleTable.update_convs)
qed


lemma retyped_tables_mType: "retyped_tables a tbl0 tbl \<Longrightarrow> rt_mType (tbl n) = rt_mType (tbl0 n)"
  by (simp add: retyped_tables_def)

lemma retyped_tables_mNum: "retyped_tables a tbl0 tbl \<Longrightarrow> rt_mNum (tbl n) = rt_mNum (tbl0 n)"
  unfolding retyped_tables_def rt_mNum_def by (metis length_map)

lemma retyped_tables_nth:
  "retyped_tables a tbl0 tbl \<Longrightarrow> i < rt_mNum (tbl0 n) \<Longrightarrow>
   rt_mData (tbl n) ! i = rt_mData (tbl0 n) ! i
   \<or> rt_mData (tbl n) ! i = retyped_TableData a (rt_mData (tbl0 n) ! i)"
  unfolding retyped_tables_def rt_mNum_def by (metis nth_map)

lemma TableData_to_FronData_retyped_tables:
  assumes "retyped_tables a tbl0 tbl" and "i < rt_mNum (tbl0 p)"
    and "TableData_to_FronData (rt_mData (tbl0 p) ! i) = Inr x"
  shows "TableData_to_FronData (rt_mData (tbl p) ! i) = Inr x"
  using retyped_tables_nth [OF assms(1,2)] assms(3) TableData_to_FronData_retyped [of _ x a]
  by auto

lemma RuleFindChildAtIndex_retyped:
  assumes r: "retyped_tables a tbl0 tbl" and f: "RuleFindChildAtIndex tbl0 p i = Inr x"
  shows "RuleFindChildAtIndex tbl p i = Inr x"
proof -
  note ty = retyped_tables_mType [OF r, of p]
  note nu = retyped_tables_mNum [OF r, of p]
  note td = TableData_to_FronData_retyped_tables [OF r, of _ p x]
  show ?thesis
  proof (cases "rt_mType (tbl0 p)")
    case ET_Null
    with f show ?thesis by (simp add: RuleFindChildAtIndex_def)
  next
    case ET_Oneof
    with f have "i < rt_mNum (tbl0 p)"
      and "TableData_to_FronData (rt_mData (tbl0 p) ! i) = Inr x"
      by (simp_all add: RuleFindChildAtIndex_def split: if_splits)
    with td [of i] ET_Oneof ty nu show ?thesis by (simp add: RuleFindChildAtIndex_def)
  next
    case ET_Concatenate
    with f have "i < rt_mNum (tbl0 p)"
      and "TableData_to_FronData (rt_mData (tbl0 p) ! i) = Inr x"
      by (simp_all add: RuleFindChildAtIndex_def split: if_splits)
    with td [of i] ET_Concatenate ty nu show ?thesis by (simp add: RuleFindChildAtIndex_def)
  next
    case ET_Zeroormore
    with f have "i = 0" "0 < rt_mNum (tbl0 p)"
      and "TableData_to_FronData (rt_mData (tbl0 p) ! 0) = Inr x"
      by (simp_all add: RuleFindChildAtIndex_def split: if_splits)
    with td [of 0] ET_Zeroormore ty nu show ?thesis by (simp add: RuleFindChildAtIndex_def)
  next
    case ET_Zeroorone
    with f have "i = 0" "0 < rt_mNum (tbl0 p)"
      and "TableData_to_FronData (rt_mData (tbl0 p) ! 0) = Inr x"
      by (simp_all add: RuleFindChildAtIndex_def split: if_splits)
    with td [of 0] ET_Zeroorone ty nu show ?thesis by (simp add: RuleFindChildAtIndex_def)
  next
    case ET_Data
    with f have "i = 0" "0 < rt_mNum (tbl0 p)"
      and "TableData_to_FronData (rt_mData (tbl0 p) ! 0) = Inr x"
      by (simp_all add: RuleFindChildAtIndex_def split: if_splits)
    with td [of 0] ET_Data ty nu show ?thesis by (simp add: RuleFindChildAtIndex_def)
  qed
qed

lemma circle_path_retyped:
  "circle_path tbl0 prev cs = Some path \<Longrightarrow> retyped_tables a tbl0 tbl \<Longrightarrow>
   circle_path tbl prev cs = Some path"
proof (induction cs arbitrary: prev path)
  case Nil
  then show ?case by simp
next
  case (Cons ci rest)
  from Cons.prems(1) obtain rt path' where
    rt: "RuleFindChildAtIndex tbl0 prev ci = Inr (FNT_Rule rt)"
    and p': "circle_path tbl0 rt rest = Some path'" and path: "path = rt # path'"
    by (auto split: sum.splits FronData.splits)
  from RuleFindChildAtIndex_retyped [OF Cons.prems(2) rt] Cons.IH [OF p' Cons.prems(2)] path
  show ?case by simp
qed

lemma recorded_FronNodes_retyped:
  "recorded_FronNodes a rec_nodes j nxt (map (retyped_TableData a) children)
     = recorded_FronNodes a rec_nodes j nxt children"
proof -
  have "(case retyped_TableData a d of
           DT_Token t \<Rightarrow> [\<lparr>mPos = j, fn_mData = FNT_Token t\<rparr>]
         | _ \<Rightarrow> if mEntry a (retyped_TableData a d) \<notin> set rec_nodes
                     \<and> mEntry a (retyped_TableData a d) \<noteq> nxt
                  then [\<lparr>mPos = j, fn_mData = FNT_Rule (mEntry a (retyped_TableData a d))\<rparr>] else [])
      = (case d of
           DT_Token t \<Rightarrow> [\<lparr>mPos = j, fn_mData = FNT_Token t\<rparr>]
         | _ \<Rightarrow> if mEntry a d \<notin> set rec_nodes \<and> mEntry a d \<noteq> nxt
                  then [\<lparr>mPos = j, fn_mData = FNT_Rule (mEntry a d)\<rparr>] else [])" for d
    by (cases d) (simp_all add: retyped_TableData_def set_mType_DT_Subtable_def mEntry_def)
  then show ?thesis by (simp add: recorded_FronNodes_def comp_def)
qed

lemma step_FronNodes_retyped:
  assumes "retyped_tables a tbl0 tbl"
  shows "step_FronNodes a rec_nodes j (tbl p) nxt ci = step_FronNodes a rec_nodes j (tbl0 p) nxt ci"
proof -
  from assms have "rt_mData (tbl p) = rt_mData (tbl0 p)
      \<or> rt_mData (tbl p) = map (retyped_TableData a) (rt_mData (tbl0 p))"
    by (simp add: retyped_tables_def)
  then have "recorded_FronNodes a rec_nodes j nxt (rt_mData (tbl p))
      = recorded_FronNodes a rec_nodes j nxt (rt_mData (tbl0 p))"
    by (auto simp: recorded_FronNodes_retyped)
  with retyped_tables_mType [OF assms, of p] retyped_tables_mNum [OF assms, of p]
  show ?thesis by (simp add: step_FronNodes_def split: EntryType.splits)
qed

lemma FindFronNodes_oneof_eq:
  "FindFronNodes_oneof v a rec_nodes j nxt children fns = Inr (children', fns') \<Longrightarrow>
   children' = map (retyped_TableData a) children
   \<and> fns' = fns @ recorded_FronNodes a rec_nodes j nxt children"
proof (induction children arbitrary: fns children')
  case Nil
  then show ?case by (simp add: recorded_FronNodes_def)
next
  case (Cons data rest)
  show ?case
  proof (cases "\<exists>t. data = DT_Token t")
    case True
    then obtain t where t: "data = DT_Token t" by blast
    with Cons.prems obtain rest' where
      "FindFronNodes_oneof v a rec_nodes j nxt rest
         (fns @ [\<lparr>mPos = j, fn_mData = FNT_Token t\<rparr>]) = Inr (rest', fns')"
      and "children' = data # rest'"
      by (auto split: sum.splits)
    with Cons.IH [OF this(1)] t show ?thesis
      by (simp add: recorded_FronNodes_def retyped_TableData_def)
  next
    case False
    let ?rt = "mEntry a data"
    let ?f1 = "if \<not> IsRecursionNode rec_nodes ?rt \<and> ?rt \<noteq> nxt
               then fns @ [\<lparr>mPos = j, fn_mData = FNT_Rule ?rt\<rparr>] else fns"
    have e: "mEntry a (set_mType_DT_Subtable a data) = ?rt"
      by (simp add: set_mType_DT_Subtable_def mEntry_def)
    from False Cons.prems e obtain rest' where
      r: "FindFronNodes_oneof v a rec_nodes j nxt rest ?f1 = Inr (rest', fns')"
      and c: "children' = set_mType_DT_Subtable a data # rest'"
      by (cases data) (auto simp: Let_def split: sum.splits if_splits)
    from False have rd: "retyped_TableData a data = set_mType_DT_Subtable a data"
      by (cases data) (simp_all add: retyped_TableData_def)
    from False have rc: "recorded_FronNodes a rec_nodes j nxt (data # rest) =
        (if ?rt \<notin> set rec_nodes \<and> ?rt \<noteq> nxt then [\<lparr>mPos = j, fn_mData = FNT_Rule ?rt\<rparr>] else [])
        @ recorded_FronNodes a rec_nodes j nxt rest"
      by (cases data) (simp_all add: recorded_FronNodes_def)
    from Cons.IH [OF r] c rd rc show ?thesis by (simp add: IsRecursionNode_iff)
  qed
qed

lemma RuleFindChildAtIndex_bound:
  "RuleFindChildAtIndex tbl prev ci = Inr d \<Longrightarrow> rt_mType (tbl prev) = ET_Concatenate \<Longrightarrow>
   ci < rt_mNum (tbl prev)"
  by (simp add: RuleFindChildAtIndex_def split: if_splits)

lemma FindFronNodes_switch_eq:
  assumes sw: "FindFronNodes_switch tbl v a rec_nodes j prev nxt ci fns = Inr (tbl', fns')"
    and r: "retyped_tables a tbl0 tbl"
    and b: "rt_mType (tbl0 prev) = ET_Concatenate \<Longrightarrow> ci < rt_mNum (tbl0 prev)"
  shows "retyped_tables a tbl0 tbl' \<and> fns' = fns @ step_FronNodes a rec_nodes j (tbl0 prev) nxt ci"
proof -
  note ty = retyped_tables_mType [OF r, of prev]
  note nu = retyped_tables_mNum [OF r, of prev]
  have st: "step_FronNodes a rec_nodes j (tbl prev) nxt ci
      = step_FronNodes a rec_nodes j (tbl0 prev) nxt ci"
    by (rule step_FronNodes_retyped [OF r])
  show ?thesis
  proof (cases "rt_mType (tbl prev)")
    case ET_Oneof
    with sw obtain children where
      o: "FindFronNodes_oneof v a rec_nodes j nxt (rt_mData (tbl prev)) fns = Inr (children, fns')"
      and t: "tbl' = tbl(prev := (tbl prev)\<lparr>rt_mData := children\<rparr>)"
      by (auto simp: FindFronNodes_switch_def split: sum.splits)
    from FindFronNodes_oneof_eq [OF o] have
      c: "children = map (retyped_TableData a) (rt_mData (tbl prev))"
      and f: "fns' = fns @ recorded_FronNodes a rec_nodes j nxt (rt_mData (tbl prev))" by simp_all
    from retyped_tables_upd [OF r, of prev] t c have "retyped_tables a tbl0 tbl'" by simp
    moreover from f ET_Oneof st have "fns' = fns @ step_FronNodes a rec_nodes j (tbl0 prev) nxt ci"
      by (simp add: step_FronNodes_def)
    ultimately show ?thesis by simp
  next
    case ET_Concatenate
    with sw b ty nu r st show ?thesis
      by (auto simp: FindFronNodes_switch_def step_FronNodes_def concatenate_FronNodes_def
            unsigned_pred_def split: if_splits)
  next
    case ET_Null
    with sw show ?thesis by (simp add: FindFronNodes_switch_def)
  next
    case ET_Zeroormore
    with sw r st show ?thesis
      by (auto simp: FindFronNodes_switch_def step_FronNodes_def split: if_splits)
  next
    case ET_Zeroorone
    with sw r st show ?thesis
      by (auto simp: FindFronNodes_switch_def step_FronNodes_def split: if_splits)
  next
    case ET_Data
    with sw r st show ?thesis
      by (auto simp: FindFronNodes_switch_def step_FronNodes_def split: if_splits)
  qed
qed

lemma recorded_FronNodes_mPos:
  assumes "f \<in> set (recorded_FronNodes a rec_nodes j nxt children)"
  shows "mPos f = j"
proof -
  from assms obtain d where
    "f \<in> set (case d of
                 DT_Token t \<Rightarrow> [\<lparr>mPos = j, fn_mData = FNT_Token t\<rparr>]
               | _ \<Rightarrow> if mEntry a d \<notin> set rec_nodes \<and> mEntry a d \<noteq> nxt
                        then [\<lparr>mPos = j, fn_mData = FNT_Rule (mEntry a d)\<rparr>] else [])"
    unfolding recorded_FronNodes_def by auto
  then show ?thesis by (cases d) (simp_all split: if_splits)
qed

lemma step_FronNodes_mPos: "f \<in> set (step_FronNodes a rec_nodes j prev nxt ci) \<Longrightarrow> mPos f = j"
  by (cases "rt_mType prev")
     (auto simp: step_FronNodes_def concatenate_FronNodes_def dest: recorded_FronNodes_mPos
        split: if_splits)

lemma filter_step_FronNodes:
  "filter (\<lambda>f. mPos f = p) (step_FronNodes a rec_nodes j prev nxt ci)
     = (if p = j then step_FronNodes a rec_nodes j prev nxt ci else [])"
  using step_FronNodes_mPos [of _ a rec_nodes j prev nxt ci]
  by (auto simp: filter_empty_conv filter_id_conv)


lemma FindFronNodes_loop_filter:
  "FindFronNodes_loop tbl v a lead rec_nodes j prev cs fns = Inr (tbl', fns') \<Longrightarrow> 1 \<le> j \<Longrightarrow>
   retyped_tables a tbl0 tbl \<Longrightarrow> circle_path tbl0 prev cs = Some path \<Longrightarrow>
   retyped_tables a tbl0 tbl' \<and>
     (\<forall>p. filter (\<lambda>f. mPos f = p) fns' = filter (\<lambda>f. mPos f = p) fns @
        (if j \<le> p \<and> p < j + length cs \<and> 2 \<le> p
         then step_FronNodes a rec_nodes p (tbl0 ((prev # path) ! (p - j))) (path ! (p - j))
                (cs ! (p - j))
         else []))"
proof (induction cs arbitrary: j prev fns tbl path)
  case Nil
  then show ?case by auto
next
  case (Cons ci rest)
  from Cons.prems(4) obtain nxt path' where
    nxt0: "RuleFindChildAtIndex tbl0 prev ci = Inr (FNT_Rule nxt)"
    and p': "circle_path tbl0 nxt rest = Some path'" and path: "path = nxt # path'"
    by (auto split: sum.splits FronData.splits)
  have nxt: "RuleFindChildAtIndex tbl prev ci = Inr (FNT_Rule nxt)"
    by (rule RuleFindChildAtIndex_retyped [OF Cons.prems(3) nxt0])
  show ?case
  proof (cases "j = 1")
    case True
    with Cons.prems(1) nxt
    have "FindFronNodes_loop tbl v a lead rec_nodes (Suc j) nxt rest fns = Inr (tbl', fns')"
      by (simp split: if_splits)
    from Cons.IH [OF this _ Cons.prems(3) p'] have
      t: "retyped_tables a tbl0 tbl'"
      and f: "\<And>p. filter (\<lambda>f. mPos f = p) fns' = filter (\<lambda>f. mPos f = p) fns @
        (if Suc j \<le> p \<and> p < Suc j + length rest \<and> 2 \<le> p
         then step_FronNodes a rec_nodes p (tbl0 ((nxt # path') ! (p - Suc j))) (path' ! (p - Suc j))
                (rest ! (p - Suc j))
         else [])" by auto
    have "filter (\<lambda>f. mPos f = q) fns' = filter (\<lambda>f. mPos f = q) fns @
        (if j \<le> q \<and> q < j + length (ci # rest) \<and> 2 \<le> q
         then step_FronNodes a rec_nodes q (tbl0 ((prev # path) ! (q - j)))
                (path ! (q - j)) ((ci # rest) ! (q - j))
         else [])" for q
    proof (cases "2 \<le> q")
      case False
      then show ?thesis using f [of q] by simp
    next
      case q2: True
      then have "q - j = Suc (q - Suc j)" using True by simp
      then show ?thesis using f [of q] q2 True path by simp
    qed
    with t show ?thesis by blast
  next
    case False
    with Cons.prems have j2: "2 \<le> j" by simp
    from Cons.prems(1) nxt False obtain tbl1 fns1 where
      sw: "FindFronNodes_switch tbl v a rec_nodes j prev nxt ci fns = Inr (tbl1, fns1)"
      and lp: "FindFronNodes_loop tbl1 v a lead rec_nodes (Suc j) nxt rest fns1 = Inr (tbl', fns')"
      by (auto split: sum.splits if_splits)
    from FindFronNodes_switch_eq [OF sw Cons.prems(3)] RuleFindChildAtIndex_bound [OF nxt0]
    have t1: "retyped_tables a tbl0 tbl1"
      and fns1: "fns1 = fns @ step_FronNodes a rec_nodes j (tbl0 prev) nxt ci" by simp_all
    from Cons.IH [OF lp _ t1 p'] have
      t: "retyped_tables a tbl0 tbl'"
      and f: "\<And>p. filter (\<lambda>f. mPos f = p) fns' = filter (\<lambda>f. mPos f = p) fns1 @
        (if Suc j \<le> p \<and> p < Suc j + length rest \<and> 2 \<le> p
         then step_FronNodes a rec_nodes p (tbl0 ((nxt # path') ! (p - Suc j))) (path' ! (p - Suc j))
                (rest ! (p - Suc j))
         else [])" by auto
    have "filter (\<lambda>f. mPos f = q) fns' = filter (\<lambda>f. mPos f = q) fns @
        (if j \<le> q \<and> q < j + length (ci # rest) \<and> 2 \<le> q
         then step_FronNodes a rec_nodes q (tbl0 ((prev # path) ! (q - j)))
                (path ! (q - j)) ((ci # rest) ! (q - j))
         else [])" for q
    proof -
      consider "q < j" | "q = j" | "j < q" by arith
      then show ?thesis
      proof cases
        case 1
        then show ?thesis using f [of q] fns1 by (simp add: filter_step_FronNodes)
      next
        case 2
        then show ?thesis using f [of q] fns1 j2 path by (simp add: filter_step_FronNodes)
      next
        case 3
        then have "q - j = Suc (q - Suc j)" by simp
        then show ?thesis using f [of q] fns1 j2 3 path by (simp add: filter_step_FronNodes)
      qed
    qed
    with t show ?thesis by blast
  qed
qed

text \<open>
  What \<open>FindFronNodes(c)\<close> has recorded for the circle \<open>c\<close>, in terms of the rule tables
  \<open>tbl0\<close> that \<open>Init\<close> started from.
\<close>

lemma FindFronNodes_from_facts:
  "FindFronNodes_from n tbl v a i r = Inr (tbl', r') \<Longrightarrow> retyped_tables a tbl0 tbl \<Longrightarrow>
   (\<forall>c. i \<le> c \<and> c < i + n \<longrightarrow> circle_path tbl0 (mLeadNode r) (mCircles r ! c) = Some (path c)) \<Longrightarrow>
   retyped_tables a tbl0 tbl'
   \<and> mLeadNode r' = mLeadNode r \<and> mCircles r' = mCircles r
   \<and> mRecursionNodes r' = mRecursionNodes r \<and> mLeadFronNodes r' = mLeadFronNodes r
   \<and> length (mFronNodes r') = length (mFronNodes r)
   \<and> (\<forall>c. c < i \<longrightarrow> mFronNodes r' ! c = mFronNodes r ! c)
   \<and> (\<forall>c. i \<le> c \<and> c < i + n \<longrightarrow> c < length (mFronNodes r)
         \<and> (\<forall>p. filter (\<lambda>f. mPos f = p) (mFronNodes r' ! c) =
               filter (\<lambda>f. mPos f = p) (mFronNodes r ! c) @
               (if 2 \<le> p \<and> p \<le> length (mCircles r ! c)
                then step_FronNodes a (mRecursionNodes r) p (tbl0 ((mLeadNode r # path c) ! (p - 1)))
                       (path c ! (p - 1)) (mCircles r ! c ! (p - 1))
                else [])))"
proof (induction n arbitrary: i r tbl)
  case 0
  then show ?case by auto
next
  case (Suc n)
  from Suc.prems(1) obtain tbl1 r1 where
    c1: "FindFronNodes_circle tbl v a i r = Inr (tbl1, r1)"
    and rest: "FindFronNodes_from n tbl1 v a (Suc i) r1 = Inr (tbl', r')"
    by (auto split: sum.splits)
  from c1 obtain fn where
    il: "i < length (mFronNodes r)"
    and fn: "FindFronNodes_loop tbl v a (mLeadNode r) (mRecursionNodes r) 1 (mLeadNode r)
               (mCircles r ! i) (mFronNodes r ! i) = Inr (tbl1, fn)"
    and r1: "r1 = r\<lparr>mFronNodes := (mFronNodes r)[i := fn]\<rparr>"
    by (auto simp: FindFronNodes_circle_def split: if_splits sum.splits)
  from Suc.prems(3) have pi: "circle_path tbl0 (mLeadNode r) (mCircles r ! i) = Some (path i)"
    by simp
  from FindFronNodes_loop_filter [OF fn _ Suc.prems(2) pi] have
    t1: "retyped_tables a tbl0 tbl1"
    and ffn: "\<And>p. filter (\<lambda>f. mPos f = p) fn = filter (\<lambda>f. mPos f = p) (mFronNodes r ! i) @
        (if 2 \<le> p \<and> p \<le> length (mCircles r ! i)
         then step_FronNodes a (mRecursionNodes r) p (tbl0 ((mLeadNode r # path i) ! (p - 1)))
                (path i ! (p - 1)) (mCircles r ! i ! (p - 1))
         else [])"
    by auto
  from Suc.prems(3) r1
  have p1: "\<forall>c. Suc i \<le> c \<and> c < Suc i + n \<longrightarrow>
      circle_path tbl0 (mLeadNode r1) (mCircles r1 ! c) = Some (path c)" by simp
  note ih = Suc.IH [OF rest t1 p1]
  have t: "retyped_tables a tbl0 tbl'" using ih by simp
  have a: "mLeadNode r' = mLeadNode r" "mCircles r' = mCircles r"
    "mRecursionNodes r' = mRecursionNodes r" "mLeadFronNodes r' = mLeadFronNodes r"
    "length (mFronNodes r') = length (mFronNodes r)"
    using ih r1 by simp_all
  have b: "mFronNodes r' ! c = mFronNodes r ! c" if "c < i" for c
    using ih r1 that by simp
  have i': "mFronNodes r' ! i = fn" using ih r1 il by simp
  have c: "c < length (mFronNodes r)
         \<and> (\<forall>p. filter (\<lambda>f. mPos f = p) (mFronNodes r' ! c) =
               filter (\<lambda>f. mPos f = p) (mFronNodes r ! c) @
               (if 2 \<le> p \<and> p \<le> length (mCircles r ! c)
                then step_FronNodes a (mRecursionNodes r) p (tbl0 ((mLeadNode r # path c) ! (p - 1)))
                       (path c ! (p - 1)) (mCircles r ! c ! (p - 1))
                else []))"
    if "i \<le> c" "c < i + Suc n" for c
  proof (cases "c = i")
    case True
    then show ?thesis using il ffn i' by simp
  next
    case False
    with that have "Suc i \<le> c" "c < Suc i + n" by simp_all
    with ih have "c < length (mFronNodes r1)
         \<and> (\<forall>p. filter (\<lambda>f. mPos f = p) (mFronNodes r' ! c) =
               filter (\<lambda>f. mPos f = p) (mFronNodes r1 ! c) @
               (if 2 \<le> p \<and> p \<le> length (mCircles r1 ! c)
                then step_FronNodes a (mRecursionNodes r1) p (tbl0 ((mLeadNode r1 # path c) ! (p - 1)))
                       (path c ! (p - 1)) (mCircles r1 ! c ! (p - 1))
                else []))" by blast
    then show ?thesis using r1 False by simp
  qed
  from t a b c show ?case by blast
qed


lemma FindLeadFronNodes_oneof_eq:
  "FindLeadFronNodes_oneof v a circle_indices children fns = Inr (children', fns') \<Longrightarrow>
   children' = map (retyped_TableData a) children"
proof (induction children arbitrary: fns children')
  case Nil
  then show ?case by simp
next
  case (Cons data rest)
  show ?case
  proof (cases "\<exists>t. data = DT_Token t")
    case True
    then obtain t where t: "data = DT_Token t" by blast
    with Cons.prems obtain rest' where
      "FindLeadFronNodes_oneof v a circle_indices rest
         (fns @ [\<lparr>mPos = 0, fn_mData = FNT_Token t\<rparr>]) = Inr (rest', fns')"
      and "children' = data # rest'"
      by (auto split: sum.splits)
    with Cons.IH [OF this(1)] t show ?thesis by (simp add: retyped_TableData_def)
  next
    case False
    from False Cons.prems obtain rest' f1 where
      r: "FindLeadFronNodes_oneof v a circle_indices rest f1 = Inr (rest', fns')"
      and c: "children' = set_mType_DT_Subtable a data # rest'"
      by (cases data) (auto simp: Let_def split: sum.splits if_splits)
    from False have rd: "retyped_TableData a data = set_mType_DT_Subtable a data"
      by (cases data) (simp_all add: retyped_TableData_def)
    from Cons.IH [OF r] c rd show ?thesis by simp
  qed
qed

lemma FindLeadFronNodes_preserves:
  assumes "FindLeadFronNodes tbl v a r = Inr (tbl', r')"
  shows "retyped_tables a tbl tbl' \<and> mLeadNode r' = mLeadNode r \<and> mCircles r' = mCircles r
   \<and> mRecursionNodes r' = mRecursionNodes r \<and> mFronNodes r' = mFronNodes r"
proof (cases "rt_mType (tbl (mLeadNode r))")
  case ET_Oneof
  with assms obtain circle_indices children fnodes where
    o: "FindLeadFronNodes_oneof v a circle_indices (rt_mData (tbl (mLeadNode r)))
          (mLeadFronNodes r) = Inr (children, fnodes)"
    and t: "tbl' = tbl(mLeadNode r := (tbl (mLeadNode r))\<lparr>rt_mData := children\<rparr>)"
    and r': "r' = r\<lparr>mLeadFronNodes := fnodes\<rparr>"
    by (auto simp: FindLeadFronNodes_def Let_def split: sum.splits)
  from FindLeadFronNodes_oneof_eq [OF o] t
    retyped_tables_upd [OF retyped_tables_refl, of a tbl "mLeadNode r"]
  have "retyped_tables a tbl tbl'" by simp
  with r' show ?thesis by simp
next
  case ET_Concatenate
  with assms show ?thesis
    by (auto simp: FindLeadFronNodes_def Let_def retyped_tables_refl split: sum.splits)
qed (use assms in \<open>simp_all add: FindLeadFronNodes_def Let_def split: if_splits\<close>)

lemma FindLeadFronNodes_Concatenate:
  "FindLeadFronNodes tbl v a r = Inr (tbl', r') \<Longrightarrow> rt_mType (tbl (mLeadNode r)) = ET_Concatenate \<Longrightarrow>
   FindLeadFronNodes_concat (rt_mNum (tbl (mLeadNode r))) (mCircles r) (mLeadFronNodes r)
     = Inr (mLeadFronNodes r')"
  by (auto simp: FindLeadFronNodes_def Let_def split: sum.splits)

text \<open>What a successful \<open>Init\<close> has computed, phase by phase.\<close>

lemma Init_facts:
  assumes "Init tbl v a g lr = Inr (tbl', r)"
  shows "mLeadNode r = mRuleTable lr" "mCircles r = lr_mCircles lr"
    "FindRecursionNodes_circles tbl (mLeadNode r) (mCircles r) [mLeadNode r]
       = Inr (mRecursionNodes r)"
    "rt_mType (tbl (mLeadNode r)) = ET_Concatenate \<Longrightarrow>
       FindLeadFronNodes_concat (rt_mNum (tbl (mLeadNode r))) (mCircles r) []
         = Inr (mLeadFronNodes r)"
    "retyped_tables a tbl tbl'"
    "\<And>c p. c < mNum r \<Longrightarrow>
       filter (\<lambda>f. mPos f = p) (mFronNodes r ! c) =
         (if 2 \<le> p \<and> p \<le> length (mCircles r ! c)
          then step_FronNodes a (mRecursionNodes r) p
                 (tbl ((mLeadNode r # the (circle_path tbl (mLeadNode r) (mCircles r ! c))) ! (p - 1)))
                 (the (circle_path tbl (mLeadNode r) (mCircles r ! c)) ! (p - 1))
                 (mCircles r ! c ! (p - 1))
          else [])"
proof -
  let ?r0 = "\<lparr>mLeadNode = mRuleTable lr, mCircles = lr_mCircles lr, mRecursionNodes = [],
                mLeadFronNodes = [], mFronNodes = replicate g []\<rparr>"
  from assms obtain r1 tbl1 r2 where
    s1: "FindRecursionNodes tbl ?r0 = Inr r1"
    and s2: "FindLeadFronNodes tbl v a r1 = Inr (tbl1, r2)"
    and s3: "FindFronNodes_from (mNum r2) tbl1 v a 0 r2 = Inr (tbl', r)"
    by (auto simp: Init_def FindFronNodes_def Let_def split: sum.splits)
  from s1 obtain nodes where
    n: "FindRecursionNodes_circles tbl (mRuleTable lr) (lr_mCircles lr) [mRuleTable lr] = Inr nodes"
    and r1: "r1 = ?r0\<lparr>mRecursionNodes := nodes\<rparr>"
    by (auto simp: FindRecursionNodes_def split: sum.splits)
  note p2 = FindLeadFronNodes_preserves [OF s2]
  let ?path = "\<lambda>c. the (circle_path tbl (mLeadNode r2) (mCircles r2 ! c))"
  have paths: "\<forall>c. 0 \<le> c \<and> c < 0 + mNum r2 \<longrightarrow>
      circle_path tbl (mLeadNode r2) (mCircles r2 ! c) = Some (?path c)"
  proof (intro allI impI)
    fix c assume "0 \<le> c \<and> c < 0 + mNum r2"
    with p2 r1 have "lr_mCircles lr ! c \<in> set (lr_mCircles lr)" by (simp add: mNum_def)
    with FindRecursionNodes_circles_path [OF n] p2 r1
    show "circle_path tbl (mLeadNode r2) (mCircles r2 ! c) = Some (?path c)" by auto
  qed
  from p2 have t1: "retyped_tables a tbl tbl1" by simp
  note p3 = FindFronNodes_from_facts [OF s3 t1 paths]
  show "mLeadNode r = mRuleTable lr" "mCircles r = lr_mCircles lr"
    using p2 p3 r1 by simp_all
  show "FindRecursionNodes_circles tbl (mLeadNode r) (mCircles r) [mLeadNode r]
       = Inr (mRecursionNodes r)"
    using p2 p3 r1 n by simp
  show "FindLeadFronNodes_concat (rt_mNum (tbl (mLeadNode r))) (mCircles r) []
         = Inr (mLeadFronNodes r)" if "rt_mType (tbl (mLeadNode r)) = ET_Concatenate"
    using FindLeadFronNodes_Concatenate [OF s2] that p2 p3 r1 by simp
  show "retyped_tables a tbl tbl'" using p3 by simp
  show "filter (\<lambda>f. mPos f = p) (mFronNodes r ! c) =
         (if 2 \<le> p \<and> p \<le> length (mCircles r ! c)
          then step_FronNodes a (mRecursionNodes r) p
                 (tbl ((mLeadNode r # the (circle_path tbl (mLeadNode r) (mCircles r ! c))) ! (p - 1)))
                 (the (circle_path tbl (mLeadNode r) (mCircles r ! c)) ! (p - 1))
                 (mCircles r ! c ! (p - 1))
          else [])" if "c < mNum r" for c p
  proof -
    from that p3 have c2: "0 \<le> c \<and> c < 0 + mNum r2" by (simp add: mNum_def)
    with p3 have "c < length (mFronNodes r2)
       \<and> (\<forall>p. filter (\<lambda>f. mPos f = p) (mFronNodes r ! c) =
               filter (\<lambda>f. mPos f = p) (mFronNodes r2 ! c) @
               (if 2 \<le> p \<and> p \<le> length (mCircles r2 ! c)
                then step_FronNodes a (mRecursionNodes r2) p (tbl ((mLeadNode r2 # ?path c) ! (p - 1)))
                       (?path c ! (p - 1)) (mCircles r2 ! c ! (p - 1))
                else []))" by blast
    moreover from this p2 r1 have "mFronNodes r2 ! c = []" by simp
    ultimately show ?thesis using p3 by simp
  qed
qed

lemma butlast_set_nth:
  "set (butlast path) = {(x # path) ! pos | pos. 1 \<le> pos \<and> pos < length path}"
proof -
  have "set (butlast path) = {butlast path ! k | k. k < length (butlast path)}"
    by (rule set_conv_nth)
  also have "\<dots> = {path ! k | k. k < length path - 1}"
    by (auto simp: nth_butlast) (metis length_butlast nth_butlast One_nat_def)
  also have "\<dots> = {(x # path) ! pos | pos. 1 \<le> pos \<and> pos < length path}"
  proof (intro set_eqI iffI)
    fix y assume "y \<in> {path ! k | k. k < length path - 1}"
    then obtain k where "y = path ! k" "k < length path - 1" by blast
    then have "y = (x # path) ! Suc k" "1 \<le> Suc k" "Suc k < length path" by simp_all
    then show "y \<in> {(x # path) ! pos | pos. 1 \<le> pos \<and> pos < length path}" by blast
  next
    fix y assume "y \<in> {(x # path) ! pos | pos. 1 \<le> pos \<and> pos < length path}"
    then obtain pos where "y = (x # path) ! pos" "1 \<le> pos" "pos < length path" by blast
    then have "y = path ! (pos - 1)" "pos - 1 < length path - 1" by (simp_all add: nth_Cons')
    then show "y \<in> {path ! k | k. k < length path - 1}" by blast
  qed
  finally show ?thesis .
qed

lemma FindRuleOnCircle_path:
  assumes "circle_path tbl (mLeadNode r) (mCircles r ! i) = Some path"
    and "mCircles r ! i \<noteq> [] \<longrightarrow> last path = mLeadNode r"
    and "i < mNum r" and "pos \<le> length (mCircles r ! i)"
  shows "FindRuleOnCircle tbl r i pos = Inr ((mLeadNode r # path) ! pos)"
  using FindRuleOnCircle_loop_path [OF assms(1,2), of 1 "length (mCircles r ! i)" pos] assms(3,4)
  by (simp add: FindRuleOnCircle_def Let_def)

lemmas Init_defs = Init_def FindRecursionNodes_def FindLeadFronNodes_def FindFronNodes_def
  FindFronNodes_circle_def FindFronNodes_switch_def RuleFindChildAtIndex_def
  TableData_to_FronData_def mEntry_def set_mType_DT_Subtable_def rt_mNum_def mNum_def
  unsigned_pred_def Let_def

lemma example_Init:
  "Init example_tbl 4 example_as_mEntry 2 example_lr = Inr (example_tbl', example_rec)"
  by (simp add: Init_defs example_tbl_def example_tbl'_def example_lr_def example_rec_def
        example_as_mEntry_def numeral_2_eq_2 numeral_3_eq_3)

text \<open>
  The left recursions that the detector finds in the grammars of the examples, with their
  circles: two in \<open>example_tbl\<close>, one in \<open>type_tbl\<close>, \<open>Add_tbl\<close> and \<open>Sub_tbl\<close>. Their
  numbers are the values of \<open>gLeftRecursionsNum\<close> in the examples.
\<close>

lemma example_tbl_detected:
  "map_option (map_sum id mRecursions)
     (DetectRuleTable 10 example_tbl (example_RuleFindChild example_tbl) 0 [] empty_RecDetector)
   = Some (Inr [\<lparr>rec_mRuleTable = 2, rec_mPaths = [[1, 0]]\<rparr>,
                \<lparr>rec_mRuleTable = 0, rec_mPaths = [[0, 3], [0, 4, 0]]\<rparr>])"
  by code_simp

lemma type_tbl_detected:
  "map_option (map_sum id mRecursions)
     (DetectRuleTable 10 type_tbl (example_RuleFindChild type_tbl) 0 [] empty_RecDetector)
   = Some (Inr [\<lparr>rec_mRuleTable = 0, rec_mPaths = [[0, 2]]\<rparr>])"
  by code_simp

lemma Add_tbl_Sub_tbl_detected:
  "map_option (map_sum id mRecursions)
     (DetectRuleTable 10 Add_tbl (example_RuleFindChild Add_tbl) 0 [] empty_RecDetector)
   = Some (Inr [\<lparr>rec_mRuleTable = 0, rec_mPaths = [[1, 0]]\<rparr>])
   \<and> map_option (map_sum id mRecursions)
     (DetectRuleTable 10 Sub_tbl (example_RuleFindChild Sub_tbl) 0 [] empty_RecDetector)
   = Some (Inr [\<lparr>rec_mRuleTable = 0, rec_mPaths = [[0, 0]]\<rparr>])"
  by code_simp

text \<open>
  Claim C1, on the code. For a Oneof lead node the claim asks that a sub-table child is a
  LeadFronNode if and only if its index is not the first index of a circle. In the grammar
  \<open>Add\<close> the circle starts at child 1, the concatenation \<open>Add '+' Id\<close>, and the code
  records this child as a LeadFronNode all the same. In the grammar \<open>Sub\<close> the circle
  starts at child 0, and the code drops child 1, which is on no circle. The search loop
  of the source compares its own counter, not the index of the child, with the first
  indices of the circles. All children are tokens or sub-tables here, so the rule tables
  are left as they were.
\<close>

theorem FindLeadFronNodes_Oneof_ignores_child_index:
  "Init Add_tbl 4 as_mEntry 1 \<lparr>mRuleTable = 0, lr_mCircles = [[1, 0]]\<rparr>
     = Inr (Add_tbl,
            \<lparr>mLeadNode = 0, mCircles = [[1, 0]], mRecursionNodes = [0, 1],
             mLeadFronNodes = [\<lparr>mPos = 0, fn_mData = FNT_Rule 2\<rparr>,
                               \<lparr>mPos = 0, fn_mData = FNT_Rule 1\<rparr>],
             mFronNodes = [[\<lparr>mPos = 2, fn_mData = FNT_Concat 1\<rparr>]]\<rparr>)
   \<and> Init Sub_tbl 4 as_mEntry 1 \<lparr>mRuleTable = 0, lr_mCircles = [[0, 0]]\<rparr>
     = Inr (Sub_tbl,
            \<lparr>mLeadNode = 0, mCircles = [[0, 0]], mRecursionNodes = [0, 1],
             mLeadFronNodes = [\<lparr>mPos = 0, fn_mData = FNT_Token 7\<rparr>],
             mFronNodes = [[\<lparr>mPos = 2, fn_mData = FNT_Concat 1\<rparr>]]\<rparr>)"
  by (simp add: Init_defs Add_tbl_def Sub_tbl_def fun_upd_idem_iff)

lemma Init_circle:
  assumes init: "Init tbl v a g lr = Inr (tbl', r)" and i: "i < mNum r"
  obtains path where
    "circle_path tbl (mLeadNode r) (mCircles r ! i) = Some path"
    "length path = length (mCircles r ! i)"
    "\<And>pos. pos \<le> length (mCircles r ! i) \<Longrightarrow>
       FindRuleOnCircle tbl r i pos = Inr ((mLeadNode r # path) ! pos)"
    "\<And>pos. pos \<le> length (mCircles r ! i) \<Longrightarrow>
       FindRuleOnCircle tbl' r i pos = Inr ((mLeadNode r # path) ! pos)"
    "mCircles r ! i \<noteq> [] \<Longrightarrow> last path = mLeadNode r"
    "set (butlast path) \<subseteq> set (mRecursionNodes r)"
    "\<And>p. filter (\<lambda>f. mPos f = p) (mFronNodes r ! i) =
       (if 2 \<le> p \<and> p \<le> length (mCircles r ! i)
        then step_FronNodes a (mRecursionNodes r) p (tbl ((mLeadNode r # path) ! (p - 1)))
               (path ! (p - 1)) (mCircles r ! i ! (p - 1))
        else [])"
proof -
  from i have mem: "mCircles r ! i \<in> set (mCircles r)" by (simp add: mNum_def)
  from FindRecursionNodes_circles_path [OF Init_facts(3) [OF init]] mem obtain path where
    p: "circle_path tbl (mLeadNode r) (mCircles r ! i) = Some path"
    and l: "mCircles r ! i \<noteq> [] \<longrightarrow> last path = mLeadNode r"
    and s: "set (butlast path) \<subseteq> set (mRecursionNodes r)"
    by force
  have p': "circle_path tbl' (mLeadNode r) (mCircles r ! i) = Some path"
    by (rule circle_path_retyped [OF p Init_facts(5) [OF init]])
  show thesis
  proof (rule that [of path])
    show "circle_path tbl (mLeadNode r) (mCircles r ! i) = Some path" by (rule p)
    show "length path = length (mCircles r ! i)" using p by (rule circle_path_length)
    show "FindRuleOnCircle tbl r i pos = Inr ((mLeadNode r # path) ! pos)"
      if "pos \<le> length (mCircles r ! i)" for pos
      using FindRuleOnCircle_path [OF p l i that] .
    show "FindRuleOnCircle tbl' r i pos = Inr ((mLeadNode r # path) ! pos)"
      if "pos \<le> length (mCircles r ! i)" for pos
      using FindRuleOnCircle_path [OF p' l i that] .
    show "last path = mLeadNode r" if "mCircles r ! i \<noteq> []" using l that by simp
    show "set (butlast path) \<subseteq> set (mRecursionNodes r)" by (rule s)
    show "filter (\<lambda>f. mPos f = p) (mFronNodes r ! i) =
       (if 2 \<le> p \<and> p \<le> length (mCircles r ! i)
        then step_FronNodes a (mRecursionNodes r) p (tbl ((mLeadNode r # path) ! (p - 1)))
               (path ! (p - 1)) (mCircles r ! i ! (p - 1))
        else [])" for p
      using Init_facts(6) [OF init i, of p] p by simp
  qed
qed

text \<open>
  After \<open>Init\<close>, for a circle \<open>i\<close> and a Oneof rule \<open>prev\<close> at position \<open>j - 1 \<ge> 1\<close> of the
  circle, whose successor on the circle is \<open>nxt\<close>: the FronNodes of the circle recorded
  with position \<open>j\<close> come from the token children of \<open>prev\<close> and from all its other
  children, sub-tables or not, whose \<open>mEntry\<close> is neither \<open>nxt\<close> nor a recursion node.
\<close>

lemma Init_Oneof_FronNodes:
  assumes "Init tbl vDT_Subtable as_mEntry gLeftRecursionsNum lr = Inr (tbl', r)"
    and "i < mNum r" and "2 \<le> j" and "j \<le> length (mCircles r ! i)"
    and "FindRuleOnCircle tbl r i (j - 1) = Inr prev"
    and "rt_mType (tbl prev) = ET_Oneof"
    and "FindRuleOnCircle tbl r i j = Inr nxt"
  shows "filter (\<lambda>f. mPos f = j) (mFronNodes r ! i)
           = recorded_FronNodes as_mEntry (mRecursionNodes r) j nxt (rt_mData (tbl prev))"
proof -
  from Init_circle [OF assms(1,2)] obtain path where
    w: "\<And>pos. pos \<le> length (mCircles r ! i) \<Longrightarrow>
       FindRuleOnCircle tbl r i pos = Inr ((mLeadNode r # path) ! pos)"
    and f: "\<And>p. filter (\<lambda>f. mPos f = p) (mFronNodes r ! i) =
       (if 2 \<le> p \<and> p \<le> length (mCircles r ! i)
        then step_FronNodes as_mEntry (mRecursionNodes r) p (tbl ((mLeadNode r # path) ! (p - 1)))
               (path ! (p - 1)) (mCircles r ! i ! (p - 1))
        else [])" by metis
  from assms(4) have "j - 1 \<le> length (mCircles r ! i)" by simp
  from w [OF this] assms(5) have prev: "prev = (mLeadNode r # path) ! (j - 1)" by simp
  from w [of j] assms(3,4,7) have nxt: "nxt = path ! (j - 1)" by (simp add: nth_Cons')
  from f [of j] assms(3,4,6) prev nxt show ?thesis by (simp add: step_FronNodes_def)
qed

text \<open>
  Claim C2, on the code. In the grammar \<open>type_tbl\<close> the Oneof rule 1 is on the circle and
  is not the lead node; its children are a type, a token and the lead node. The claim
  asks for the token as the only FronNode of the circle: no sub-table child is left
  after the lead node, a recursion node, is taken out. The code records a rule FronNode
  for the type as well, with the pointer that it reads from the union of the type, unless
  this pointer happens to be the address of rule 0 or of rule 1; and it leaves the type in
  the rule table as a sub-table. The test of a child is the assignment
  \<open>data->mType = DT_Subtable\<close> where the comparison \<open>==\<close> is meant, so that the branch
  for sub-tables takes every child that is not a token.
\<close>

theorem FindFronNodes_Oneof_records_other_children:
  "Init type_tbl 4 as_mEntry 1 type_lr =
     Inr (type_tbl(1 := \<lparr>rt_mType = ET_Oneof,
                          rt_mData = [DT_Subtable (as_mEntry (DT_Type 3)), DT_Token 4,
                                      DT_Subtable 0]\<rparr>),
          \<lparr>mLeadNode = 0, mCircles = [[0, 2]], mRecursionNodes = [0, 1],
           mLeadFronNodes = [\<lparr>mPos = 0, fn_mData = FNT_Concat 1\<rparr>],
           mFronNodes = [(if as_mEntry (DT_Type 3) \<in> {0, 1} then []
                          else [\<lparr>mPos = 2, fn_mData = FNT_Rule (as_mEntry (DT_Type 3))\<rparr>])
                         @ [\<lparr>mPos = 2, fn_mData = FNT_Token 4\<rparr>]]\<rparr>)
   \<and> oneof_FronNodes [0, 1] 2 0 (rt_mData (type_tbl 1)) = [\<lparr>mPos = 2, fn_mData = FNT_Token 4\<rparr>]"
  by (simp add: Init_defs type_tbl_def type_lr_def oneof_FronNodes_def)





text \<open>
  Claim C4. After \<open>Init\<close> the recursion nodes are the lead node and the rule tables at
  the positions \<open>1..len - 1\<close> of the circles, none of them twice; every position of
  every circle holds a rule table, and position \<open>len\<close>, the target of the last edge, is
  the lead node. The positions are those that \<open>FindRuleOnCircle\<close> finds, in the rule
  tables that \<open>Init\<close> was given and in the rule tables that it leaves alike.
\<close>

theorem Init_RecursionNodes:
  assumes "Init tbl vDT_Subtable as_mEntry gLeftRecursionsNum lr = Inr (tbl', r)"
  shows "mLeadNode r = mRuleTable lr \<and> mCircles r = lr_mCircles lr
    \<and> set (mRecursionNodes r) =
        insert (mLeadNode r)
          {rt. \<exists>i pos. i < mNum r \<and> 1 \<le> pos \<and> pos < length (mCircles r ! i)
                 \<and> FindRuleOnCircle tbl r i pos = Inr rt}
    \<and> distinct (mRecursionNodes r)
    \<and> (\<forall>i pos. i < mNum r \<and> pos \<le> length (mCircles r ! i) \<longrightarrow>
          (\<exists>rt. FindRuleOnCircle tbl r i pos = Inr rt))
    \<and> (\<forall>i. i < mNum r \<longrightarrow>
          FindRuleOnCircle tbl r i (length (mCircles r ! i)) = Inr (mLeadNode r))
    \<and> (\<forall>i pos. i < mNum r \<and> pos \<le> length (mCircles r ! i) \<longrightarrow>
          FindRuleOnCircle tbl' r i pos = FindRuleOnCircle tbl r i pos)"
proof -
  let ?lead = "mLeadNode r"
  let ?P = "\<lambda>c. set (butlast (the (circle_path tbl ?lead c)))"
  let ?R = "{rt. \<exists>i pos. i < mNum r \<and> 1 \<le> pos \<and> pos < length (mCircles r ! i)
                 \<and> FindRuleOnCircle tbl r i pos = Inr rt}"
  from FindRecursionNodes_circles_path [OF Init_facts(3) [OF assms]]
  have s: "set (mRecursionNodes r) = insert ?lead (\<Union>c \<in> set (mCircles r). ?P c)"
    and d: "distinct (mRecursionNodes r)" by auto
  have circ: "?P (mCircles r ! i) = {rt. \<exists>pos. 1 \<le> pos \<and> pos < length (mCircles r ! i)
                 \<and> FindRuleOnCircle tbl r i pos = Inr rt}" if i: "i < mNum r" for i
  proof -
    from Init_circle [OF assms i] obtain path where
      p: "circle_path tbl ?lead (mCircles r ! i) = Some path"
      and l: "length path = length (mCircles r ! i)"
      and w: "\<And>pos. pos \<le> length (mCircles r ! i) \<Longrightarrow>
         FindRuleOnCircle tbl r i pos = Inr ((?lead # path) ! pos)" by metis
    have "?P (mCircles r ! i) = {(?lead # path) ! pos | pos. 1 \<le> pos \<and> pos < length path}"
      using p butlast_set_nth [of path ?lead] by simp
    also have "\<dots> = {rt. \<exists>pos. 1 \<le> pos \<and> pos < length (mCircles r ! i)
                 \<and> FindRuleOnCircle tbl r i pos = Inr rt}"
    proof (intro set_eqI iffI)
      fix x assume "x \<in> {(?lead # path) ! pos | pos. 1 \<le> pos \<and> pos < length path}"
      then obtain pos where x: "x = (?lead # path) ! pos" and b: "1 \<le> pos" "pos < length path"
        by blast
      from b l have "pos \<le> length (mCircles r ! i)" by simp
      from w [OF this] x have "FindRuleOnCircle tbl r i pos = Inr x" by simp
      with b l show "x \<in> {rt. \<exists>pos. 1 \<le> pos \<and> pos < length (mCircles r ! i)
                 \<and> FindRuleOnCircle tbl r i pos = Inr rt}" by auto
    next
      fix x assume "x \<in> {rt. \<exists>pos. 1 \<le> pos \<and> pos < length (mCircles r ! i)
                 \<and> FindRuleOnCircle tbl r i pos = Inr rt}"
      then obtain pos where b: "1 \<le> pos" "pos < length (mCircles r ! i)"
        and f: "FindRuleOnCircle tbl r i pos = Inr x" by blast
      from b have "pos \<le> length (mCircles r ! i)" by simp
      from w [OF this] f have "x = (?lead # path) ! pos" by simp
      moreover from b l have "1 \<le> pos \<and> pos < length path" by simp
      ultimately show "x \<in> {(?lead # path) ! pos | pos. 1 \<le> pos \<and> pos < length path}" by blast
    qed
    finally show ?thesis .
  qed
  have u: "(\<Union>c \<in> set (mCircles r). ?P c) = ?R"
  proof (intro set_eqI iffI)
    fix x assume "x \<in> (\<Union>c \<in> set (mCircles r). ?P c)"
    then obtain c where c: "c \<in> set (mCircles r)" and xc: "x \<in> ?P c" by blast
    from c obtain i where "i < length (mCircles r)" "c = mCircles r ! i"
      by (metis in_set_conv_nth)
    with xc have "i < mNum r" "x \<in> ?P (mCircles r ! i)" by (simp_all add: mNum_def)
    with circ [of i] show "x \<in> ?R" by blast
  next
    fix x assume "x \<in> ?R"
    then obtain i pos where i: "i < mNum r" and "1 \<le> pos" "pos < length (mCircles r ! i)"
      "FindRuleOnCircle tbl r i pos = Inr x" by blast
    with circ [of i] have "x \<in> ?P (mCircles r ! i)" by blast
    moreover from i have "mCircles r ! i \<in> set (mCircles r)" by (simp add: mNum_def)
    ultimately show "x \<in> (\<Union>c \<in> set (mCircles r). ?P c)" by blast
  qed
  have e: "\<exists>rt. FindRuleOnCircle tbl r i pos = Inr rt"
    if "i < mNum r" "pos \<le> length (mCircles r ! i)" for i pos
    using Init_circle [OF assms that(1)] that(2) by metis
  have b: "FindRuleOnCircle tbl r i (length (mCircles r ! i)) = Inr ?lead" if i: "i < mNum r" for i
  proof -
    from Init_circle [OF assms i] obtain path where
      l: "length path = length (mCircles r ! i)"
      and w: "\<And>pos. pos \<le> length (mCircles r ! i) \<Longrightarrow>
         FindRuleOnCircle tbl r i pos = Inr ((?lead # path) ! pos)"
      and la: "mCircles r ! i \<noteq> [] \<Longrightarrow> last path = ?lead" by metis
    show ?thesis
    proof (cases "mCircles r ! i = []")
      case True
      with w [of 0] show ?thesis by simp
    next
      case False
      with l have "path \<noteq> []" by auto
      then have "(?lead # path) ! length path = last path"
        by (simp add: last_conv_nth nth_Cons')
      with w [of "length (mCircles r ! i)"] l la [OF False] show ?thesis by simp
    qed
  qed
  have q: "FindRuleOnCircle tbl' r i pos = FindRuleOnCircle tbl r i pos"
    if "i < mNum r" "pos \<le> length (mCircles r ! i)" for i pos
    using Init_circle [OF assms that(1)] that(2) by metis
  from Init_facts(1,2) [OF assms] s u d e b q show ?thesis by simp
qed

theorem Init_RecursionNodes_witness:
  "Init example_tbl 4 example_as_mEntry 2 example_lr = Inr (example_tbl', example_rec)
   \<and> set (mRecursionNodes example_rec) = {0, 1, 3}
   \<and> distinct (mRecursionNodes example_rec)
   \<and> FindRuleOnCircle example_tbl example_rec 1 1 = Inr 1
   \<and> FindRuleOnCircle example_tbl example_rec 1 2 = Inr 3
   \<and> FindRuleOnCircle example_tbl example_rec 1 3 = Inr 0
   \<and> FindRuleOnCircle example_tbl' example_rec 1 3 = Inr 0"
proof -
  have h1: "Init example_tbl 4 example_as_mEntry 2 example_lr = Inr (example_tbl', example_rec)" by (rule example_Init)
  have h2: "(1::nat) < mNum example_rec" by (simp add: mNum_def example_rec_def)
  have h3: "length (mCircles example_rec ! 1) = 3" by (simp add: example_rec_def)
  have h4: "mLeadNode example_rec = 0" by (simp add: example_rec_def)
  have e: "FindRuleOnCircle example_tbl example_rec 1 1 = Inr 1"
    "FindRuleOnCircle example_tbl example_rec 1 2 = Inr 3" by code_simp+
  have s: "set (mRecursionNodes example_rec) = {0, 1, 3}" by (simp add: example_rec_def)
  note t = Init_RecursionNodes [OF h1]
  from t h2 h3 h4
  have a: "distinct (mRecursionNodes example_rec)
      \<and> FindRuleOnCircle example_tbl example_rec 1 3 = Inr 0" by metis
  from h2 h3 have "(1::nat) < mNum example_rec \<and> 3 \<le> length (mCircles example_rec ! 1)" by simp
  with t have "FindRuleOnCircle example_tbl' example_rec 1 3
      = FindRuleOnCircle example_tbl example_rec 1 3" by blast
  with h1 e s a show ?thesis by simp
qed

section \<open>Properties of the AST construction\<close>

lemma collect_child_trees_eq:
  "collect_child_trees children child_trees =
     child_trees @ map (\<lambda>a. the (GetAstTreeNode a)) (filter (\<lambda>a. GetAstTreeNode a \<noteq> None) children)"
  by (induction children arbitrary: child_trees) (auto split: option.splits)

lemma NewTreeNode_no_sub_tree:
  assumes "mAppealData appeal_node = AppealTable rule_table"
    and "NewTreeNode_actions RunAction (actions rule_table) appeal_node None st = Inr (None, (b, pool))"
  shows "NewTreeNode CreateTokenTreeNode RunAction actions appeal_node st =
     (case Manipulate pool appeal_node of
        Inl e \<Rightarrow> Inl e
      | Inr (sub_tree, pool') \<Rightarrow> Inr (sub_tree, (b, pool')))"
  using assms by (simp add: NewTreeNode_def)

text \<open>
  Claim C8. For an appeal node of a rule that has no action, if exactly one sorted child
  has an AST node, \<open>NewTreeNode\<close> returns the pointer to that node, and no node of the
  tree pool is changed or added.
\<close>

theorem NewTreeNode_one_child:
  assumes "mAppealData appeal_node = AppealTable rule_table"
    and "actions rule_table = []"
    and "filter (\<lambda>a. GetAstTreeNode a \<noteq> None) (mSortedChildren appeal_node) = [child]"
  shows "NewTreeNode CreateTokenTreeNode RunAction actions appeal_node (b, pool)
           = Inr (GetAstTreeNode child, (b, pool))"
proof -
  from assms(3) have "child \<in> set (filter (\<lambda>a. GetAstTreeNode a \<noteq> None) (mSortedChildren appeal_node))"
    by simp
  then obtain t where t: "GetAstTreeNode child = Some t" by auto
  have "Manipulate pool appeal_node = Inr (Some t, pool)"
    using assms(3) t by (simp add: Manipulate_def collect_child_trees_eq)
  with NewTreeNode_no_sub_tree [of appeal_node rule_table RunAction actions "(b, pool)" b pool]
    assms(1,2) t
  show ?thesis by simp
qed

theorem NewTreeNode_one_child_witness:
  "NewTreeNode no_token_tree no_action_tree (\<lambda>rt. []) one_child_appeal ((), binary_pool)
     = Inr (Some 2, ((), binary_pool))"
proof -
  have h1: "mAppealData one_child_appeal = AppealTable 0" by (simp add: one_child_appeal_def)
  have h2: "(\<lambda>rt::rt_ref. []::Action list) 0 = []" by simp
  have h3: "filter (\<lambda>a. GetAstTreeNode a \<noteq> None) (mSortedChildren one_child_appeal)
              = [AppealNode (AppealTable 1) [] (Some 2)]"
    by (simp add: one_child_appeal_def)
  from NewTreeNode_one_child [of one_child_appeal 0 "\<lambda>rt. []" "AppealNode (AppealTable 1) [] (Some 2)"
      no_token_tree no_action_tree "()" binary_pool] h1 h2 h3
  show ?thesis by simp
qed

text \<open>
  Claim C5. For an appeal node of a rule whose actions leave no sub tree, with exactly
  two sorted children that have an AST node, if the first of the two nodes is a
  parenthesis node then \<open>NewTreeNode\<close> returns a new Cast node, put at the end of the
  tree pool: its destination type is the expression of the parenthesis node and its
  expression is the second node. The nodes that were in the pool are not changed.
\<close>

theorem NewTreeNode_Cast:
  assumes "mAppealData appeal_node = AppealTable rule_table"
    and "NewTreeNode_actions RunAction (actions rule_table) appeal_node None st = Inr (None, (b, pool))"
    and "filter (\<lambda>a. GetAstTreeNode a \<noteq> None) (mSortedChildren appeal_node) = [ca, cb]"
    and "GetAstTreeNode ca = Some child_a" and "GetAstTreeNode cb = Some child_b"
    and "child_a < length pool" and "mNode (pool ! child_a) = ParenthesisNode expr"
  shows "NewTreeNode CreateTokenTreeNode RunAction actions appeal_node st
           = Inr (Some (length pool),
                  (b, pool @ [\<lparr>mParent = None, mNode = CastNode expr (Some child_b)\<rparr>]))"
proof -
  have "Manipulate2Cast pool child_a child_b
          = Inr (Some (length pool), pool @ [\<lparr>mParent = None, mNode = CastNode expr (Some child_b)\<rparr>])"
    using assms(6,7) by (simp add: Manipulate2Cast_def deref_def NewTreeNode_pool_def)
  then have "Manipulate pool appeal_node
          = Inr (Some (length pool), pool @ [\<lparr>mParent = None, mNode = CastNode expr (Some child_b)\<rparr>])"
    using assms(3,4,5) by (simp add: Manipulate_def collect_child_trees_eq)
  with NewTreeNode_no_sub_tree [of appeal_node rule_table RunAction actions st b pool
      CreateTokenTreeNode] assms(1,2)
  show ?thesis by simp
qed

theorem NewTreeNode_Cast_witness:
  "NewTreeNode no_token_tree no_action_tree (\<lambda>rt. []) cast_appeal ((), cast_pool)
     = Inr (Some 3, ((), cast_pool @ [\<lparr>mParent = None, mNode = CastNode (Some 0) (Some 2)\<rparr>]))"
proof -
  have h1: "mAppealData cast_appeal = AppealTable 0" by (simp add: cast_appeal_def)
  have h2: "NewTreeNode_actions no_action_tree ((\<lambda>rt. []) 0) cast_appeal None ((), cast_pool)
              = Inr (None, ((), cast_pool))" by simp
  have h3: "filter (\<lambda>a. GetAstTreeNode a \<noteq> None) (mSortedChildren cast_appeal)
              = [AppealNode (AppealTable 1) [] (Some 1), AppealNode (AppealTable 2) [] (Some 2)]"
    by (simp add: cast_appeal_def)
  have h4: "GetAstTreeNode (AppealNode (AppealTable 1) [] (Some 1)) = Some 1" by simp
  have h5: "GetAstTreeNode (AppealNode (AppealTable 2) [] (Some 2)) = Some 2" by simp
  have h6: "1 < length cast_pool" by (simp add: cast_pool_def)
  have h7: "mNode (cast_pool ! 1) = ParenthesisNode (Some 0)" by (simp add: cast_pool_def)
  have l: "length cast_pool = 3" by (simp add: cast_pool_def)
  from NewTreeNode_Cast [of cast_appeal 0 no_action_tree "\<lambda>rt. []" "((), cast_pool)" "()" cast_pool
      "AppealNode (AppealTable 1) [] (Some 1)" "AppealNode (AppealTable 2) [] (Some 2)" 1 2 "Some 0"
      no_token_tree] h1 h2 h3 h4 h5 h6 h7 l
  show ?thesis by simp
qed

lemma SetParent_Some:
  "r < length pool \<Longrightarrow> SetParent pool (Some r) parent = Inr (pool[r := (pool ! r)\<lparr>mParent := Some parent\<rparr>])"
  by (simp add: SetParent_def deref_def)

lemma BuildBinaryOperation_Some:
  assumes "a < length pool" and "c < length pool"
  shows "\<exists>pool'. BuildBinaryOperation pool (Some a) (Some c) opr = Inr (length pool, pool')
     \<and> length pool' = Suc (length pool)
     \<and> pool' ! length pool = \<lparr>mParent = None, mNode = BinOperatorNode opr (Some a) (Some c)\<rparr>
     \<and> mParent (pool' ! a) = Some (length pool) \<and> mParent (pool' ! c) = Some (length pool)
     \<and> (\<forall>r < length pool. mNode (pool' ! r) = mNode (pool ! r))
     \<and> (\<forall>r < length pool. r \<noteq> a \<and> r \<noteq> c \<longrightarrow> pool' ! r = pool ! r)"
proof -
  let ?n = "length pool"
  let ?p1 = "pool @ [\<lparr>mParent = None, mNode = BinOperatorNode opr (Some a) (Some c)\<rparr>]"
  let ?p2 = "?p1[a := (?p1 ! a)\<lparr>mParent := Some ?n\<rparr>]"
  let ?p3 = "?p2[c := (?p2 ! c)\<lparr>mParent := Some ?n\<rparr>]"
  have s1: "SetParent ?p1 (Some a) ?n = Inr ?p2" using assms by (simp add: SetParent_Some)
  have s2: "SetParent ?p2 (Some c) ?n = Inr ?p3" using assms by (simp add: SetParent_Some)
  have b: "BuildBinaryOperation pool (Some a) (Some c) opr = Inr (?n, ?p3)"
    unfolding BuildBinaryOperation_def NewTreeNode_pool_def using s1 s2 by simp
  have l: "length ?p3 = Suc ?n" by simp
  have n: "?p3 ! ?n = \<lparr>mParent = None, mNode = BinOperatorNode opr (Some a) (Some c)\<rparr>"
    using assms by (simp add: nth_list_update nth_append)
  have pa: "mParent (?p3 ! a) = Some ?n" using assms by (simp add: nth_list_update nth_append)
  have pc: "mParent (?p3 ! c) = Some ?n" using assms by (simp add: nth_list_update nth_append)
  have k: "\<forall>r < ?n. mNode (?p3 ! r) = mNode (pool ! r)"
    using assms by (simp add: nth_list_update nth_append)
  have o: "\<forall>r < ?n. r \<noteq> a \<and> r \<noteq> c \<longrightarrow> ?p3 ! r = pool ! r"
    using assms by (simp add: nth_list_update nth_append)
  from b l n pa pc k o show ?thesis by blast
qed

text \<open>
  Claim C6. For an appeal node of a rule that has no action, with exactly two sorted
  children that have an AST node, if the first node is no parenthesis node and the
  second is a unary operation whose operator has the properties \<open>Unary\<close> and \<open>Binary\<close>,
  and whose operand \<open>opnd\<close> is a node of the pool, then \<open>NewTreeNode\<close> returns a new
  binary operation with that operator, put at the end of the tree pool: its left operand
  is the first node and its right operand is \<open>opnd\<close>. The two operands get the new node
  as their parent; nothing else changes in the nodes that were in the pool.
\<close>

theorem NewTreeNode_Binary:
  assumes "mAppealData appeal_node = AppealTable rule_table"
    and "actions rule_table = []"
    and "filter (\<lambda>a. GetAstTreeNode a \<noteq> None) (mSortedChildren appeal_node) = [ca, cb]"
    and "GetAstTreeNode ca = Some child_a" and "GetAstTreeNode cb = Some child_b"
    and "child_a < length pool" and "\<forall>expr. mNode (pool ! child_a) \<noteq> ParenthesisNode expr"
    and "child_b < length pool" and "mNode (pool ! child_b) = UnaOperatorNode opr (Some opnd)"
    and "opnd < length pool"
    and "GetOperatorProperty opr = Inr property" and "Unary \<in> property" and "Binary \<in> property"
  shows "\<exists>pool'. NewTreeNode CreateTokenTreeNode RunAction actions appeal_node (b, pool)
                    = Inr (Some (length pool), (b, pool'))
     \<and> length pool' = Suc (length pool)
     \<and> pool' ! length pool = \<lparr>mParent = None, mNode = BinOperatorNode opr (Some child_a) (Some opnd)\<rparr>
     \<and> mParent (pool' ! child_a) = Some (length pool)
     \<and> mParent (pool' ! opnd) = Some (length pool)
     \<and> (\<forall>r < length pool. mNode (pool' ! r) = mNode (pool ! r))
     \<and> (\<forall>r < length pool. r \<noteq> child_a \<and> r \<noteq> opnd \<longrightarrow> pool' ! r = pool ! r)"
proof -
  from BuildBinaryOperation_Some [OF assms(6,10), of opr] obtain pool' where
    bb: "BuildBinaryOperation pool (Some child_a) (Some opnd) opr = Inr (length pool, pool')"
    and rest: "length pool' = Suc (length pool)"
      "pool' ! length pool = \<lparr>mParent = None, mNode = BinOperatorNode opr (Some child_a) (Some opnd)\<rparr>"
      "mParent (pool' ! child_a) = Some (length pool)"
      "mParent (pool' ! opnd) = Some (length pool)"
      "\<forall>r < length pool. mNode (pool' ! r) = mNode (pool ! r)"
      "\<forall>r < length pool. r \<noteq> child_a \<and> r \<noteq> opnd \<longrightarrow> pool' ! r = pool ! r"
    by blast
  have c: "Manipulate2Cast pool child_a child_b = Inr (None, pool)"
    using assms(6,7) by (cases "mNode (pool ! child_a)") (simp_all add: Manipulate2Cast_def deref_def)
  have m: "Manipulate2Binary pool child_a child_b = Inr (Some (length pool), pool')"
    using assms(8,9,11,12,13) bb by (simp add: Manipulate2Binary_def deref_def)
  have "Manipulate pool appeal_node = Inr (Some (length pool), pool')"
    using assms(3,4,5) c m by (simp add: Manipulate_def collect_child_trees_eq)
  with NewTreeNode_no_sub_tree [of appeal_node rule_table RunAction actions "(b, pool)" b pool]
    assms(1,2)
  have "NewTreeNode CreateTokenTreeNode RunAction actions appeal_node (b, pool)
          = Inr (Some (length pool), (b, pool'))" by simp
  with rest show ?thesis by blast
qed

theorem NewTreeNode_Binary_witness:
  "NewTreeNode no_token_tree no_action_tree (\<lambda>rt. []) binary_appeal ((), binary_pool)
     = Inr (Some 3, ((),
         [\<lparr>mParent = Some 3, mNode = IdentifierNode ''a''\<rparr>,
          \<lparr>mParent = Some 3, mNode = IdentifierNode ''b''\<rparr>,
          \<lparr>mParent = None, mNode = UnaOperatorNode OPR_Add (Some 1)\<rparr>,
          \<lparr>mParent = None, mNode = BinOperatorNode OPR_Add (Some 0) (Some 1)\<rparr>]))
   \<and> GetOperatorProperty OPR_Add = Inr {Binary, Unary}"
proof -
  have h1: "mAppealData binary_appeal = AppealTable 0" by (simp add: binary_appeal_def)
  have h2: "(\<lambda>rt::rt_ref. []::Action list) 0 = []" by simp
  have h3: "filter (\<lambda>a. GetAstTreeNode a \<noteq> None) (mSortedChildren binary_appeal)
              = [AppealNode (AppealToken 3) [] (Some 0), AppealNode (AppealTable 1) [] (Some 2)]"
    by (simp add: binary_appeal_def)
  have h4: "GetAstTreeNode (AppealNode (AppealToken 3) [] (Some 0)) = Some 0" by simp
  have h5: "GetAstTreeNode (AppealNode (AppealTable 1) [] (Some 2)) = Some 2" by simp
  have h6: "0 < length binary_pool" by (simp add: binary_pool_def)
  have h7: "\<forall>expr. mNode (binary_pool ! 0) \<noteq> ParenthesisNode expr" by (simp add: binary_pool_def)
  have h8: "2 < length binary_pool" by (simp add: binary_pool_def)
  have h9: "mNode (binary_pool ! 2) = UnaOperatorNode OPR_Add (Some 1)" by (simp add: binary_pool_def)
  have h10: "1 < length binary_pool" by (simp add: binary_pool_def)
  have h11: "GetOperatorProperty OPR_Add = Inr {Binary, Unary}"
    by (simp add: GetOperatorProperty_def gOperatorDesc_def)
  have h12: "Unary \<in> {Binary, Unary}" by simp
  have h13: "Binary \<in> {Binary, Unary}" by simp
  from NewTreeNode_Binary [of binary_appeal 0 "\<lambda>rt. []"
      "AppealNode (AppealToken 3) [] (Some 0)" "AppealNode (AppealTable 1) [] (Some 2)" 0 2
      binary_pool OPR_Add 1 "{Binary, Unary}" no_token_tree no_action_tree "()"]
    h1 h2 h3 h4 h5 h6 h7 h8 h9 h10 h11 h12 h13
  obtain pool' where
    r: "NewTreeNode no_token_tree no_action_tree (\<lambda>rt. []) binary_appeal ((), binary_pool)
          = Inr (Some (length binary_pool), ((), pool'))" by blast
  have e: "NewTreeNode no_token_tree no_action_tree (\<lambda>rt. []) binary_appeal ((), binary_pool)
     = Inr (Some 3, ((),
         [\<lparr>mParent = Some 3, mNode = IdentifierNode ''a''\<rparr>,
          \<lparr>mParent = Some 3, mNode = IdentifierNode ''b''\<rparr>,
          \<lparr>mParent = None, mNode = UnaOperatorNode OPR_Add (Some 1)\<rparr>,
          \<lparr>mParent = None, mNode = BinOperatorNode OPR_Add (Some 0) (Some 1)\<rparr>]))"
    by (simp add: NewTreeNode_def Manipulate_def Manipulate2Cast_def Manipulate2Binary_def
        BuildBinaryOperation_def NewTreeNode_pool_def SetParent_def deref_def
        GetOperatorProperty_def gOperatorDesc_def binary_appeal_def binary_pool_def)
  from r e h11 show ?thesis by simp
qed

section \<open>Properties of the recursion detector\<close>

lemma vector_has_iff: "vector_has v t \<longleftrightarrow> t \<in> set v"
  by (induction v) auto

lemma AddRule2Recursion_keeps:
  "mInProcess (AddRule2Recursion d rule rec) = mInProcess d"
  "mDone (AddRule2Recursion d rule rec) = mDone d"
  by (simp_all add: AddRule2Recursion_def Let_def split: option.splits prod.splits)

lemma AddRecursion_mappings_keeps:
  "mInProcess (AddRecursion_mappings d rules rec) = mInProcess d"
  "mDone (AddRecursion_mappings d rules rec) = mDone d"
  by (induction rules arbitrary: d) (simp_all add: AddRule2Recursion_keeps)

lemma AddRecursion_keeps:
  assumes "AddRecursion RuleFindChild rt p d = Inr d'"
  shows "mInProcess d' = mInProcess d" "mDone d' = mDone d"
  using assms
  by (auto simp: AddRecursion_def FindOrCreateRecursion_def Let_def AddRecursion_mappings_keeps
      split: option.splits sum.splits prod.splits)

lemma keeps_stack_refl: "keeps_stack d d"
  by (simp add: keeps_stack_def)

lemma keeps_stack_trans: "keeps_stack d d1 \<Longrightarrow> keeps_stack d1 d2 \<Longrightarrow> keeps_stack d d2"
  by (auto simp: keeps_stack_def)

lemma detect_keepsD: "detect_keeps detect \<Longrightarrow> detect child p d = Some (Inr d') \<Longrightarrow> keeps_stack d d'"
  by (auto simp: detect_keeps_def)

lemma DetectOneof_keeps:
  "detect_keeps detect \<Longrightarrow> DetectOneof detect children p d = Some (Inr d') \<Longrightarrow> keeps_stack d d'"
proof (induction detect children p d rule: DetectOneof.induct)
  case (1 detect p d)
  then show ?case by (simp add: keeps_stack_refl)
next
  case (2 detect child rest p d)
  from "2.prems"(2) obtain d1 where
    c: "detect child p d = Some (Inr d1)" and r: "DetectOneof detect rest p d1 = Some (Inr d')"
    by (auto split: option.splits sum.splits)
  from detect_keepsD [OF "2.prems"(1) c] "2.IH" [OF c _ "2.prems"(1) r]
  show ?case by (auto intro: keeps_stack_trans)
qed simp_all

lemma DetectZeroormore_keeps:
  "detect_keeps detect \<Longrightarrow> DetectZeroormore detect children p d = Some (Inr d') \<Longrightarrow> keeps_stack d d'"
  by (induction detect children p d rule: DetectZeroormore.induct)
     (auto simp: keeps_stack_refl dest: detect_keepsD)

lemma DetectConcatenate_rest_keeps:
  "detect_keeps detect \<Longrightarrow> DetectConcatenate_rest detect children p d = Some (Inr d') \<Longrightarrow>
   keeps_stack d d'"
proof (induction detect children p d rule: DetectConcatenate_rest.induct)
  case (1 detect p d)
  then show ?case by (simp add: keeps_stack_refl)
next
  case (2 detect child rest p d)
  show ?case
  proof (cases "IsInProcess d child")
    case True
    with 2 show ?thesis by simp
  next
    case False
    with "2.prems"(2) obtain d1 where
      c: "detect child p d = Some (Inr d1)"
      and r: "DetectConcatenate_rest detect rest p d1 = Some (Inr d')"
      by (auto split: option.splits sum.splits)
    from detect_keepsD [OF "2.prems"(1) c] "2.IH"(1) [OF False c _ "2.prems"(1) r]
    show ?thesis by (auto intro: keeps_stack_trans)
  qed
qed simp_all

lemma DetectConcatenate_keeps:
  "detect_keeps detect \<Longrightarrow> DetectConcatenate detect children p d = Some (Inr d') \<Longrightarrow>
   keeps_stack d d'"
proof (induction detect children p d rule: DetectConcatenate.induct)
  case (2 detect child rest p d)
  from "2.prems"(2) obtain d1 where
    c: "detect child p d = Some (Inr d1)"
    and r: "DetectConcatenate_rest detect rest p d1 = Some (Inr d')"
    by (auto split: option.splits sum.splits)
  from detect_keepsD [OF "2.prems"(1) c] DetectConcatenate_rest_keeps [OF "2.prems"(1) r]
  show ?case by (rule keeps_stack_trans)
qed (auto dest: DetectConcatenate_rest_keeps)

lemma DetectRuleTable_children_keeps:
  "detect_keeps detect \<Longrightarrow> DetectRuleTable_children detect rule_table node d = Some (Inr d') \<Longrightarrow>
   keeps_stack d d'"
  by (cases "rt_mType rule_table")
     (auto simp: DetectRuleTable_children_def keeps_stack_refl
        dest: DetectOneof_keeps DetectZeroormore_keeps DetectConcatenate_keeps)

lemma DetectRuleTable_finish_done:
  assumes "DetectRuleTable_finish rt d2 = Inr d'" and "mInProcess d2 = stack @ [rt]"
  shows "mInProcess d' = stack" "mDone d' = mDone d2 @ [rt]" "rt \<notin> set (mDone d2)"
  using assms
  by (auto simp: DetectRuleTable_finish_def Let_def IsDone_def vector_has_iff split: if_splits)

lemma DetectRuleTable_step:
  assumes k: "detect_keeps (DetectRuleTable fuel tbl RuleFindChild)"
    and r: "DetectRuleTable (Suc fuel) tbl RuleFindChild rt p d = Some (Inr d')"
  shows "keeps_stack d d' \<and> (\<not> IsDone d rt \<and> \<not> IsInProcess d rt \<longrightarrow> IsDone d' rt)"
proof (cases "IsDone d rt")
  case True
  with r show ?thesis by (simp add: keeps_stack_refl)
next
  case nd: False
  show ?thesis
  proof (cases "IsInProcess d rt")
    case True
    with nd r have "AddRecursion RuleFindChild rt p d = Inr d'" by simp
    from AddRecursion_keeps [OF this] True show ?thesis by (simp add: keeps_stack_def)
  next
    case False
    let ?d1 = "d\<lparr>mInProcess := mInProcess d @ [rt]\<rparr>"
    from r nd False obtain d2 where
      c: "DetectRuleTable_children (DetectRuleTable fuel tbl RuleFindChild) (tbl rt) (rt # p) ?d1
            = Some (Inr d2)"
      and f: "DetectRuleTable_finish rt d2 = Inr d'"
      by (auto split: option.splits sum.splits)
    from DetectRuleTable_children_keeps [OF k c]
    have s2: "mInProcess d2 = mInProcess d @ [rt]" and m2: "set (mDone d) \<subseteq> set (mDone d2)"
      and di: "distinct (mDone d) \<longrightarrow> distinct (mDone d2)"
      by (simp_all add: keeps_stack_def)
    from DetectRuleTable_finish_done [OF f s2] m2 di
    show ?thesis by (auto simp: keeps_stack_def IsDone_def vector_has_iff)
  qed
qed

lemma DetectRuleTable_keeps: "detect_keeps (DetectRuleTable fuel tbl RuleFindChild)"
proof (induction fuel)
  case 0
  show ?case by (simp add: detect_keeps_def)
next
  case (Suc fuel)
  show ?case
    unfolding detect_keeps_def using DetectRuleTable_step [OF Suc] by blast
qed

text \<open>
  Claim C10. A call of \<open>DetectRuleTable\<close> that returns leaves the stack \<open>mInProcess\<close> as
  it was before the call, and every table that was done is still done, no table twice;
  when the call is not cut short (the table was neither done nor in process), the table
  is done afterwards. A call on a table that is done returns at once, and the detector
  is as it was: no child of the table is visited.
\<close>

theorem DetectRuleTable_once:
  "(DetectRuleTable fuel tbl RuleFindChild rt p d = Some (Inr d') \<longrightarrow>
      mInProcess d' = mInProcess d
      \<and> (\<forall>t. IsDone d t \<longrightarrow> IsDone d' t)
      \<and> (distinct (mDone d) \<longrightarrow> distinct (mDone d'))
      \<and> (\<not> IsDone d rt \<and> \<not> IsInProcess d rt \<longrightarrow> IsDone d' rt))
   \<and> (IsDone d rt \<longrightarrow> DetectRuleTable (Suc fuel) tbl RuleFindChild rt p d = Some (Inr d))"
proof (intro conjI impI)
  assume r: "DetectRuleTable fuel tbl RuleFindChild rt p d = Some (Inr d')"
  then obtain f where fuel: "fuel = Suc f" by (cases fuel) simp_all
  from DetectRuleTable_step [OF DetectRuleTable_keeps, of f tbl RuleFindChild rt p d d'] r fuel
  have k: "keeps_stack d d'" and n: "\<not> IsDone d rt \<and> \<not> IsInProcess d rt \<longrightarrow> IsDone d' rt"
    by simp_all
  from k show "mInProcess d' = mInProcess d" by (simp add: keeps_stack_def)
  from k show "\<forall>t. IsDone d t \<longrightarrow> IsDone d' t"
    by (auto simp: keeps_stack_def IsDone_def vector_has_iff)
  from k show "distinct (mDone d) \<Longrightarrow> distinct (mDone d')" by (simp add: keeps_stack_def)
  from n show "\<not> IsDone d rt \<and> \<not> IsInProcess d rt \<Longrightarrow> IsDone d' rt" by simp
next
  assume "IsDone d rt"
  then show "DetectRuleTable (Suc fuel) tbl RuleFindChild rt p d = Some (Inr d)" by simp
qed

lemma Add_DetectRuleTable:
  "DetectRuleTable 4 Add_tbl (example_RuleFindChild Add_tbl) 0 [] empty_RecDetector
     = Some (Inr \<lparr>mInProcess = [], mDone = [2, 1, 0],
                  mRecursions = [\<lparr>rec_mRuleTable = 0, rec_mPaths = [[1, 0]]\<rparr>],
                  mRule2Recursions = [\<lparr>r2r_mRule = 1, r2r_mRecursions = [0]\<rparr>,
                                      \<lparr>r2r_mRule = 0, r2r_mRecursions = [0]\<rparr>]\<rparr>)"
  by code_simp

theorem DetectRuleTable_once_witness:
  "DetectRuleTable 4 Add_tbl (example_RuleFindChild Add_tbl) 0 [] empty_RecDetector
     = Some (Inr Add_detected)
   \<and> \<not> IsDone empty_RecDetector 0 \<and> \<not> IsInProcess empty_RecDetector 0
   \<and> mInProcess Add_detected = mInProcess empty_RecDetector
   \<and> IsDone Add_detected 0
   \<and> distinct (mDone empty_RecDetector) \<and> distinct (mDone Add_detected)
   \<and> DetectRuleTable (Suc 4) Add_tbl (example_RuleFindChild Add_tbl) 0 [] Add_detected
       = Some (Inr Add_detected)"
proof -
  have h1: "DetectRuleTable 4 Add_tbl (example_RuleFindChild Add_tbl) 0 [] empty_RecDetector
     = Some (Inr Add_detected)"
    unfolding Add_detected_def by (rule Add_DetectRuleTable)
  have h2: "\<not> IsDone empty_RecDetector 0 \<and> \<not> IsInProcess empty_RecDetector 0"
    by (simp add: IsDone_def IsInProcess_def empty_RecDetector_def)
  from DetectRuleTable_once [of 4 Add_tbl "example_RuleFindChild Add_tbl" 0 "[]" empty_RecDetector
      Add_detected] h1 h2
  have a: "mInProcess Add_detected = mInProcess empty_RecDetector" and b: "IsDone Add_detected 0"
    and di: "distinct (mDone empty_RecDetector) \<longrightarrow> distinct (mDone Add_detected)"
    by blast+
  have h3: "distinct (mDone empty_RecDetector)" by (simp add: empty_RecDetector_def)
  with di have d: "distinct (mDone Add_detected)" by blast
  from DetectRuleTable_once [of 4 Add_tbl "example_RuleFindChild Add_tbl" 0 "[]" Add_detected
      Add_detected] b
  have c: "DetectRuleTable (Suc 4) Add_tbl (example_RuleFindChild Add_tbl) 0 [] Add_detected
       = Some (Inr Add_detected)" by blast
  from h1 h2 a b c h3 d show ?thesis by blast
qed

section \<open>Properties of the merge into a list node\<close>

lemma put_list_length [simp]: "length (put_list mk pool this xs) = length pool"
  by (simp add: put_list_def)

lemma put_list_other [simp]: "r \<noteq> this \<Longrightarrow> put_list mk pool this xs ! r = pool ! r"
  by (simp add: put_list_def)

lemma put_list_this [simp]:
  "this < length pool \<Longrightarrow> mNode (put_list mk pool this xs ! this) = mk xs"
  by (simp add: put_list_def)

lemma put_list_again:
  "this < length pool \<Longrightarrow>
   (put_list mk pool this xs)[this := (put_list mk pool this xs ! this)\<lparr>mNode := mk ys\<rparr>]
     = put_list mk pool this ys"
  by (simp add: put_list_def)

lemma put_list_same:
  "this < length pool \<Longrightarrow> mNode (pool ! this) = mk xs \<Longrightarrow> put_list mk pool this xs = pool"
  by (simp add: put_list_def list_update_same_conv)

lemma deref_put_list_other:
  "r \<noteq> this \<Longrightarrow> deref (put_list mk pool this xs) (Some r) = deref pool (Some r)"
  by (simp add: deref_def)

lemma AddExpr_put_list:
  "this < length pool \<Longrightarrow>
   AddExpr (put_list ExprListNode pool this es) this x
     = Inr (put_list ExprListNode pool this (es @ [x]))"
  by (simp add: AddExpr_def deref_def put_list_again)

lemma AddVar_put_list:
  "this < length pool \<Longrightarrow>
   AddVar (put_list VarListNode pool this es) this x
     = Inr (put_list VarListNode pool this (es @ [x]))"
  by (simp add: AddVar_def deref_def put_list_again)

lemma ExprListNode_Merge_exprs_put_list:
  assumes "this < length pool" and "el < length pool" and "el \<noteq> this"
    and "mNode (pool ! el) = ExprListNode xs"
  shows "i \<le> length xs \<Longrightarrow> length xs - i < fuel \<Longrightarrow>
    ExprListNode_Merge_exprs fuel this el i (put_list ExprListNode pool this es)
      = Some (Inr (put_list ExprListNode pool this (es @ drop i xs)))"
proof (induction fuel arbitrary: i es)
  case 0
  then show ?case by simp
next
  case (Suc fuel)
  have d: "deref (put_list ExprListNode pool this es) (Some el) = Inr (pool ! el)"
    using assms(2,3) by (simp add: deref_def)
  show ?case
  proof (cases "i < length xs")
    case True
    then have "Suc i \<le> length xs" "length xs - Suc i < fuel" using Suc.prems by simp_all
    from Suc.IH [OF this, of "es @ [xs ! i]"] True d assms(1,4)
    show ?thesis by (simp add: AddExpr_put_list Cons_nth_drop_Suc)
  next
    case False
    with Suc.prems d assms(4) show ?thesis by simp
  qed
qed

lemma VarListNode_Merge_vars_put_list:
  assumes "this < length pool" and "el < length pool" and "el \<noteq> this"
    and "mNode (pool ! el) = VarListNode xs"
  shows "i \<le> length xs \<Longrightarrow> length xs - i < fuel \<Longrightarrow>
    VarListNode_Merge_vars fuel this el i (put_list VarListNode pool this es)
      = Some (Inr (put_list VarListNode pool this (es @ drop i xs)))"
proof (induction fuel arbitrary: i es)
  case 0
  then show ?case by simp
next
  case (Suc fuel)
  have d: "deref (put_list VarListNode pool this es) (Some el) = Inr (pool ! el)"
    using assms(2,3) by (simp add: deref_def)
  show ?case
  proof (cases "i < length xs")
    case True
    then have "Suc i \<le> length xs" "length xs - Suc i < fuel" using Suc.prems by simp_all
    from Suc.IH [OF this, of "es @ [xs ! i]"] True d assms(1,4)
    show ?thesis by (simp add: AddVar_put_list Cons_nth_drop_Suc)
  next
    case False
    with Suc.prems d assms(4) show ?thesis by simp
  qed
qed

lemma Merge_pass_put_list:
  assumes "p < length pool" and "p \<noteq> this" and "mNode (pool ! p) = PassNode cs"
    and m: "\<And>c es. c \<in> set cs \<Longrightarrow>
          merge c (put_list mk pool this es) = Some (Inr (put_list mk pool this (es @ contrib c)))"
  shows "i \<le> length cs \<Longrightarrow> length cs - i < fuel \<Longrightarrow>
    Merge_pass fuel merge p i (put_list mk pool this es)
      = Some (Inr (put_list mk pool this (es @ concat (map contrib (drop i cs)))))"
proof (induction fuel arbitrary: i es)
  case 0
  then show ?case by simp
next
  case (Suc fuel)
  have d: "deref (put_list mk pool this es) (Some p) = Inr (pool ! p)"
    using assms(1,2) by (simp add: deref_def)
  show ?case
  proof (cases "i < length cs")
    case True
    then have b: "Suc i \<le> length cs" "length cs - Suc i < fuel" using Suc.prems by simp_all
    from True have mem: "cs ! i \<in> set cs" by simp
    have dr: "drop i cs = cs ! i # drop (Suc i) cs" using True by (simp add: Cons_nth_drop_Suc)
    from Suc.IH [OF b, of "es @ contrib (cs ! i)"] True d assms(3) m [OF mem, of es]
    show ?thesis by (simp add: dr)
  next
    case False
    with Suc.prems d assms(3) show ?thesis by simp
  qed
qed

lemma those_map_Some:
  "those (map f xs) = Some ys \<Longrightarrow> (\<forall>x \<in> set xs. \<exists>y. f x = Some y) \<and> ys = map (\<lambda>x. the (f x)) xs"
  by (induction xs arbitrary: ys) (auto split: option.splits)

lemma pass_children_PassNode:
  assumes "pass_children (Suc depth) pool n = Some leaves" and "mNode (pool ! n) = PassNode cs"
  shows "n < length pool"
    and "\<forall>c \<in> set cs. \<exists>l. pass_children depth pool c = Some l"
    and "leaves = concat (map (\<lambda>c. the (pass_children depth pool c)) cs)"
proof -
  from assms show n: "n < length pool" by (simp split: if_splits)
  from assms n obtain ls where
    t: "those (map (pass_children depth pool) cs) = Some ls" and l: "leaves = concat ls" by auto
  from those_map_Some [OF t] l
  show "\<forall>c \<in> set cs. \<exists>l. pass_children depth pool c = Some l"
    and "leaves = concat (map (\<lambda>c. the (pass_children depth pool c)) cs)" by simp_all
qed

lemma pass_children_leaf:
  assumes "pass_children (Suc depth) pool n = Some leaves"
    and "\<forall>cs. mNode (pool ! n) \<noteq> PassNode cs"
  shows "n < length pool" and "leaves = [n]"
proof -
  from assms(1) show n: "n < length pool" by (simp split: if_splits)
  from assms n show "leaves = [n]" by (cases "mNode (pool ! n)") simp_all
qed

lemma pass_children_no_Pass:
  "pass_children depth pool n = Some leaves \<Longrightarrow> l \<in> set leaves \<Longrightarrow>
   l < length pool \<and> (\<forall>cs. mNode (pool ! l) \<noteq> PassNode cs)"
proof (induction depth arbitrary: n leaves)
  case 0
  then show ?case by simp
next
  case (Suc depth)
  show ?case
  proof (cases "\<exists>cs. mNode (pool ! n) = PassNode cs")
    case True
    then obtain cs where cs: "mNode (pool ! n) = PassNode cs" by blast
    from pass_children_PassNode [OF Suc.prems(1) cs] Suc.prems(2)
    obtain c where "c \<in> set cs" "l \<in> set (the (pass_children depth pool c))"
      "\<exists>l. pass_children depth pool c = Some l" by auto
    with Suc.IH [of c] show ?thesis by auto
  next
    case False
    with pass_children_leaf [OF Suc.prems(1)] Suc.prems(2) show ?thesis by auto
  qed
qed

lemma concat_map_concat:
  "concat (map (\<lambda>c. concat (map f (g c))) cs) = concat (map f (concat (map g cs)))"
  by (induction cs) simp_all

lemma foldr_max_bound:
  "x \<in> set xs \<Longrightarrow> f x \<le> foldr (\<lambda>y m. max (f y) m) xs (0::nat)"
  by (induction xs) (auto simp: max.coboundedI2)

lemma max_list_length_bound:
  "r < length pool \<Longrightarrow> node_list_length (mNode (pool ! r)) \<le> max_list_length pool"
  unfolding max_list_length_def
  using foldr_max_bound [of "pool ! r" pool "\<lambda>node. node_list_length (mNode node)"]
  by simp

lemma ExprListNode_Merge_put_list:
  assumes tl: "this < length pool" and kind: "mNode (pool ! this) = ExprListNode exprs"
    and bound: "\<And>r. r < length pool \<Longrightarrow> node_list_length (mNode (pool ! r)) \<le> M"
  shows "pass_children depth pool n = Some leaves \<Longrightarrow> this \<notin> set leaves \<Longrightarrow>
    depth + M < fuel \<Longrightarrow>
      ExprListNode_Merge fuel this n (put_list ExprListNode pool this es)
        = Some (Inr (put_list ExprListNode pool this (es @ concat (map (merged_exprs pool) leaves))))"
proof (induction depth arbitrary: n leaves fuel es)
  case 0
  then show ?case by simp
next
  case (Suc depth)
  let ?put = "put_list ExprListNode pool this"
  from Suc.prems(1) have n: "n < length pool" by (simp split: if_splits)
  from Suc.prems(3) obtain f where f: "fuel = Suc f" "depth + M < f" by (cases fuel) auto
  show ?case
  proof (cases "\<exists>cs. mNode (pool ! n) = PassNode cs")
    case True
    then obtain cs where cs: "mNode (pool ! n) = PassNode cs" by blast
    with kind have ne: "n \<noteq> this" by auto
    let ?L = "\<lambda>c. the (pass_children depth pool c)"
    note pc = pass_children_PassNode [OF Suc.prems(1) cs]
    have ch: "ExprListNode_Merge f this c (?put es')
              = Some (Inr (?put (es' @ concat (map (merged_exprs pool) (?L c)))))"
      if "c \<in> set cs" for c es'
    proof -
      from pc(2) that have p: "pass_children depth pool c = Some (?L c)" by auto
      from pc(3) that Suc.prems(2) have "this \<notin> set (?L c)" by auto
      from Suc.IH [OF p this f(2)] show ?thesis .
    qed
    from bound [OF n] cs f(2) have lc: "length cs - 0 < f" by simp
    have d: "deref (?put es) (Some n) = Inr (pool ! n)" using n ne by (simp add: deref_def)
    have "Merge_pass f (ExprListNode_Merge f this) n 0 (?put es)
            = Some (Inr (?put (es @ concat (map (\<lambda>c. concat (map (merged_exprs pool) (?L c)))
                                              (drop 0 cs)))))"
      using lc by (intro Merge_pass_put_list [OF n ne cs]) (simp_all add: ch)
    with d cs f(1) pc(3) show ?thesis by (simp add: concat_map_concat)
  next
    case noPass: False
    from pass_children_leaf [OF Suc.prems(1)] noPass have l: "leaves = [n]" by auto
    show ?thesis
    proof (cases "\<exists>xs. mNode (pool ! n) = ExprListNode xs")
      case True
      then obtain xs where xs: "mNode (pool ! n) = ExprListNode xs" by blast
      from l Suc.prems(2) have ne: "n \<noteq> this" by simp
      from bound [OF n] xs f(2) have lx: "length xs - 0 < f" by simp
      have d: "deref (?put es) (Some n) = Inr (pool ! n)" using n ne by (simp add: deref_def)
      from ExprListNode_Merge_exprs_put_list [OF tl n ne xs, of 0 f es] lx
      have "ExprListNode_Merge_exprs f this n 0 (?put es) = Some (Inr (?put (es @ xs)))" by simp
      with d xs f(1) l show ?thesis by (simp add: merged_exprs_def)
    next
      case False
      with kind have ne: "n \<noteq> this" by auto
      have d: "deref (?put es) (Some n) = Inr (pool ! n)" using n ne by (simp add: deref_def)
      from False noPass d tl l f(1) show ?thesis
        by (cases "mNode (pool ! n)") (simp_all add: AddExpr_put_list merged_exprs_def)
    qed
  qed
qed

lemma VarListNode_Merge_put_list:
  assumes tl: "this < length pool" and kind: "mNode (pool ! this) = VarListNode vars"
    and bound: "\<And>r. r < length pool \<Longrightarrow> node_list_length (mNode (pool ! r)) \<le> M"
  shows "pass_children depth pool n = Some leaves \<Longrightarrow> this \<notin> set leaves \<Longrightarrow>
    \<forall>l \<in> set leaves. mergeable_var pool l \<Longrightarrow> depth + M < fuel \<Longrightarrow>
      VarListNode_Merge fuel this n (put_list VarListNode pool this es)
        = Some (Inr (put_list VarListNode pool this (es @ concat (map (merged_vars pool) leaves))))"
proof (induction depth arbitrary: n leaves fuel es)
  case 0
  then show ?case by simp
next
  case (Suc depth)
  let ?put = "put_list VarListNode pool this"
  from Suc.prems(1) have n: "n < length pool" by (simp split: if_splits)
  from Suc.prems(4) obtain f where f: "fuel = Suc f" "depth + M < f" by (cases fuel) auto
  show ?case
  proof (cases "\<exists>cs. mNode (pool ! n) = PassNode cs")
    case True
    then obtain cs where cs: "mNode (pool ! n) = PassNode cs" by blast
    with kind have ne: "n \<noteq> this" by auto
    let ?L = "\<lambda>c. the (pass_children depth pool c)"
    note pc = pass_children_PassNode [OF Suc.prems(1) cs]
    have ch: "VarListNode_Merge f this c (?put es')
              = Some (Inr (?put (es' @ concat (map (merged_vars pool) (?L c)))))"
      if "c \<in> set cs" for c es'
    proof -
      from pc(2) that have p: "pass_children depth pool c = Some (?L c)" by auto
      from pc(3) that Suc.prems(2) have t: "this \<notin> set (?L c)" by auto
      from pc(3) that Suc.prems(3) have m: "\<forall>l \<in> set (?L c). mergeable_var pool l" by auto
      from Suc.IH [OF p t m f(2)] show ?thesis .
    qed
    from bound [OF n] cs f(2) have lc: "length cs - 0 < f" by simp
    have d: "deref (?put es) (Some n) = Inr (pool ! n)" using n ne by (simp add: deref_def)
    have "Merge_pass f (VarListNode_Merge f this) n 0 (?put es)
            = Some (Inr (?put (es @ concat (map (\<lambda>c. concat (map (merged_vars pool) (?L c)))
                                              (drop 0 cs)))))"
      using lc by (intro Merge_pass_put_list [OF n ne cs]) (simp_all add: ch)
    with d cs f(1) pc(3) show ?thesis by (simp add: concat_map_concat)
  next
    case noPass: False
    from pass_children_leaf [OF Suc.prems(1)] noPass have l: "leaves = [n]" by auto
    with Suc.prems(2) have ne: "n \<noteq> this" by simp
    have d: "deref (?put es) (Some n) = Inr (pool ! n)" using n ne by (simp add: deref_def)
    from l Suc.prems(3) have mv: "mergeable_var pool n" by simp
    show ?thesis
    proof (cases "\<exists>xs. mNode (pool ! n) = VarListNode xs")
      case True
      then obtain xs where xs: "mNode (pool ! n) = VarListNode xs" by blast
      from bound [OF n] xs f(2) have lx: "length xs - 0 < f" by simp
      from VarListNode_Merge_vars_put_list [OF tl n ne xs, of 0 f es] lx
      have "VarListNode_Merge_vars f this n 0 (?put es) = Some (Inr (?put (es @ xs)))" by simp
      with d xs f(1) l show ?thesis by (simp add: merged_vars_def)
    next
      case False
      from False mv d tl l f(1) show ?thesis
        by (cases "mNode (pool ! n)") (simp_all add: AddVar_put_list merged_vars_def mergeable_var_def)
    qed
  qed
qed

lemma merged_not_wrapper:
  assumes "\<forall>m \<in> set members. m < length pool \<and> (\<forall>cs. mNode (pool ! m) \<noteq> PassNode cs)"
    and "mNode (pool ! n) = PassNode children"
  shows "n \<notin> set members"
  using assms by auto

text \<open>
  Claim C7, as the code has it. Let \<open>n\<close> be a Pass node whose nesting of Pass nodes is at
  most \<open>depth\<close> deep, \<open>members\<close> the children recursively contained in it, and \<open>this\<close> a
  list node that is not among them. With enough fuel, \<open>ExprListNode::Merge\<close> returns,
  and has added to the expressions of \<open>this\<close>, in order, for every member: the
  expressions of the member when it is an ExprList, and the member itself otherwise.
  \<open>VarListNode::Merge\<close> returns when every member is an identifier or a VarList, and has
  added, in order, for every member: the variables of the member when it is a VarList,
  and the member itself otherwise. No Pass node is among the members, so the Pass node
  \<open>n\<close> is not added as a member; it can only be among the nodes added when a list among
  the members holds it already.
\<close>

theorem Merge_PassNode:
  assumes "mNode (pool ! n) = PassNode children"
    and "pass_children depth pool n = Some members"
    and "this < length pool" and "this \<notin> set members"
    and "depth + max_list_length pool < fuel"
  shows "(mNode (pool ! this) = ExprListNode exprs \<longrightarrow>
            ExprListNode_Merge fuel this n pool =
              Some (Inr (pool[this := (pool ! this)\<lparr>mNode :=
                           ExprListNode (exprs @ concat (map (merged_exprs pool) members))\<rparr>])))
       \<and> (mNode (pool ! this) = VarListNode vars \<and> (\<forall>m \<in> set members. mergeable_var pool m) \<longrightarrow>
            VarListNode_Merge fuel this n pool =
              Some (Inr (pool[this := (pool ! this)\<lparr>mNode :=
                           VarListNode (vars @ concat (map (merged_vars pool) members))\<rparr>])))
       \<and> n \<notin> set members
       \<and> (\<forall>m \<in> set members. \<forall>cs. mNode (pool ! m) \<noteq> PassNode cs)
       \<and> ((\<forall>m \<in> set members. \<forall>xs. mNode (pool ! m) = ExprListNode xs \<longrightarrow> n \<notin> set xs) \<longrightarrow>
            n \<notin> set (concat (map (merged_exprs pool) members)))
       \<and> ((\<forall>m \<in> set members. \<forall>xs. mNode (pool ! m) = VarListNode xs \<longrightarrow> n \<notin> set xs) \<longrightarrow>
            n \<notin> set (concat (map (merged_vars pool) members)))"
proof (intro conjI impI)
  have np: "\<forall>m \<in> set members. m < length pool \<and> (\<forall>cs. mNode (pool ! m) \<noteq> PassNode cs)"
    using pass_children_no_Pass [OF assms(2)] by blast
  then show nm: "n \<notin> set members" using assms(1) by (rule merged_not_wrapper)
  from np show "\<forall>m \<in> set members. \<forall>cs. mNode (pool ! m) \<noteq> PassNode cs" by blast
  {
    assume a: "\<forall>m \<in> set members. \<forall>xs. mNode (pool ! m) = ExprListNode xs \<longrightarrow> n \<notin> set xs"
    show "n \<notin> set (concat (map (merged_exprs pool) members))"
    proof
      assume "n \<in> set (concat (map (merged_exprs pool) members))"
      then obtain m where m: "m \<in> set members" "n \<in> set (merged_exprs pool m)" by auto
      with a nm show False
        by (cases "mNode (pool ! m)") (auto simp: merged_exprs_def)
    qed
  }
  {
    assume a: "\<forall>m \<in> set members. \<forall>xs. mNode (pool ! m) = VarListNode xs \<longrightarrow> n \<notin> set xs"
    show "n \<notin> set (concat (map (merged_vars pool) members))"
    proof
      assume "n \<in> set (concat (map (merged_vars pool) members))"
      then obtain m where m: "m \<in> set members" "n \<in> set (merged_vars pool m)" by auto
      with a nm show False
        by (cases "mNode (pool ! m)") (auto simp: merged_vars_def)
    qed
  }
  {
    assume k: "mNode (pool ! this) = ExprListNode exprs"
    from ExprListNode_Merge_put_list [OF assms(3) k max_list_length_bound assms(2,4,5), of exprs]
    show "ExprListNode_Merge fuel this n pool =
              Some (Inr (pool[this := (pool ! this)\<lparr>mNode :=
                           ExprListNode (exprs @ concat (map (merged_exprs pool) members))\<rparr>]))"
      using put_list_same [of this pool ExprListNode exprs] assms(3) k by (simp add: put_list_def)
  }
  {
    assume "mNode (pool ! this) = VarListNode vars \<and> (\<forall>m \<in> set members. mergeable_var pool m)"
    then have k: "mNode (pool ! this) = VarListNode vars"
      and mv: "\<forall>m \<in> set members. mergeable_var pool m" by simp_all
    from VarListNode_Merge_put_list [OF assms(3) k max_list_length_bound assms(2,4) mv assms(5), of vars]
    show "VarListNode_Merge fuel this n pool =
              Some (Inr (pool[this := (pool ! this)\<lparr>mNode :=
                           VarListNode (vars @ concat (map (merged_vars pool) members))\<rparr>]))"
      using put_list_same [of this pool VarListNode vars] assms(3) k by (simp add: put_list_def)
  }
qed

lemma merge_pool_facts:
  "length merge_pool = 12" "max_list_length merge_pool = 2"
  "pass_children 3 merge_pool 7 = Some [3, 2, 5]"
  "pass_children 3 merge_pool 9 = Some [0, 4, 2]"
  "pass_children 2 merge_pool 6 = Some [2, 5]"
  by code_simp+

theorem Merge_PassNode_witness:
  "ExprListNode_Merge 6 10 7 merge_pool =
     Some (Inr (merge_pool[10 := \<lparr>mParent = None, mNode = ExprListNode [0, 1, 2, 5]\<rparr>]))
   \<and> VarListNode_Merge 6 11 9 merge_pool =
     Some (Inr (merge_pool[11 := \<lparr>mParent = None, mNode = VarListNode [0, 0, 1, 2]\<rparr>]))
   \<and> pass_children 3 merge_pool 7 = Some [3, 2, 5] \<and> 7 \<notin> set [3, 2, 5::nat]
   \<and> pass_children 3 merge_pool 9 = Some [0, 4, 2] \<and> 9 \<notin> set [0, 4, 2::nat]
   \<and> 7 \<notin> set (concat (map (merged_exprs merge_pool) [3, 2, 5]))
   \<and> 9 \<notin> set (concat (map (merged_vars merge_pool) [0, 4, 2]))"
proof -
  have e1: "mNode (merge_pool ! 7) = PassNode [3, 6]" "(10::nat) < length merge_pool"
    "10 \<notin> set [3, 2, 5::nat]" "3 + max_list_length merge_pool < 6"
    "mNode (merge_pool ! 10) = ExprListNode []"
    by (simp_all add: merge_pool_facts) (simp_all add: merge_pool_def)
  have v1: "mNode (merge_pool ! 9) = PassNode [0, 8]" "(11::nat) < length merge_pool"
    "11 \<notin> set [0, 4, 2::nat]"
    "mNode (merge_pool ! 11) = VarListNode [] \<and> (\<forall>m \<in> set [0, 4, 2]. mergeable_var merge_pool m)"
    by (simp_all add: merge_pool_facts) (simp_all add: merge_pool_def mergeable_var_def)
  have r1: "merge_pool[10 := (merge_pool ! 10)\<lparr>mNode :=
              ExprListNode ([] @ concat (map (merged_exprs merge_pool) [3, 2, 5]))\<rparr>]
            = merge_pool[10 := \<lparr>mParent = None, mNode = ExprListNode [0, 1, 2, 5]\<rparr>]"
    by (simp add: merge_pool_def merged_exprs_def)
  have r2: "merge_pool[11 := (merge_pool ! 11)\<lparr>mNode :=
              VarListNode ([] @ concat (map (merged_vars merge_pool) [0, 4, 2]))\<rparr>]
            = merge_pool[11 := \<lparr>mParent = None, mNode = VarListNode [0, 0, 1, 2]\<rparr>]"
    by (simp add: merge_pool_def merged_vars_def)
  from Merge_PassNode [OF e1(1) merge_pool_facts(3) e1(2,3,4), of "[]" "[]"] e1(5)
  have a: "ExprListNode_Merge 6 10 7 merge_pool =
     Some (Inr (merge_pool[10 := (merge_pool ! 10)\<lparr>mNode :=
              ExprListNode ([] @ concat (map (merged_exprs merge_pool) [3, 2, 5]))\<rparr>]))"
    and a': "7 \<notin> set [3, 2, 5::nat]"
    and a'': "(\<forall>m \<in> set [3, 2, 5]. \<forall>xs. mNode (merge_pool ! m) = ExprListNode xs \<longrightarrow> 7 \<notin> set xs)
              \<longrightarrow> 7 \<notin> set (concat (map (merged_exprs merge_pool) [3, 2, 5]))"
    by blast+
  have "\<forall>m \<in> set [3, 2, 5]. \<forall>xs. mNode (merge_pool ! m) = ExprListNode xs \<longrightarrow> 7 \<notin> set xs"
    by (simp add: merge_pool_def)
  with a'' have a3: "7 \<notin> set (concat (map (merged_exprs merge_pool) [3, 2, 5]))" by blast
  from Merge_PassNode [OF v1(1) merge_pool_facts(4) v1(2,3) e1(4), of "[]" "[]"] v1(4)
  have b: "VarListNode_Merge 6 11 9 merge_pool =
     Some (Inr (merge_pool[11 := (merge_pool ! 11)\<lparr>mNode :=
              VarListNode ([] @ concat (map (merged_vars merge_pool) [0, 4, 2]))\<rparr>]))"
    and b': "9 \<notin> set [0, 4, 2::nat]"
    and b'': "(\<forall>m \<in> set [0, 4, 2]. \<forall>xs. mNode (merge_pool ! m) = VarListNode xs \<longrightarrow> 9 \<notin> set xs)
              \<longrightarrow> 9 \<notin> set (concat (map (merged_vars merge_pool) [0, 4, 2]))"
    by blast+
  have "\<forall>m \<in> set [0, 4, 2]. \<forall>xs. mNode (merge_pool ! m) = VarListNode xs \<longrightarrow> 9 \<notin> set xs"
    by (simp add: merge_pool_def)
  with b'' have b3: "9 \<notin> set (concat (map (merged_vars merge_pool) [0, 4, 2]))" by blast
  from a b a' b' a3 b3 merge_pool_facts(3,4) show ?thesis unfolding r1 r2 by blast
qed

text \<open>
  Claim C7, as it is stated, fails. The Pass node 7 of the example pool contains the
  ExprList node 3, the identifier \<open>c\<close> and the node 5 (the latter two inside the Pass
  node 6). Merged into the empty ExprList 10 it adds the expressions 0 and 1 of the
  ExprList node 3, not the node 3. Merged into the empty VarList 11, the Pass node 6
  ends the program with \<open>MERROR\<close> at the node 5, which is no identifier.
\<close>

theorem Merge_PassNode_counterexample:
  "pass_children 3 merge_pool 7 = Some [3, 2, 5]
   \<and> ExprListNode_Merge 6 10 7 merge_pool =
       Some (Inr (merge_pool[10 := \<lparr>mParent = None, mNode = ExprListNode [0, 1, 2, 5]\<rparr>]))
   \<and> [0, 1, 2, 5] \<noteq> [] @ [3, 2, 5::nat]
   \<and> pass_children 2 merge_pool 6 = Some [2, 5]
   \<and> VarListNode_Merge 6 11 6 merge_pool =
       Some (Inl (MERROR ''VarListNode cannot merge a non-identifier or non-varlist node''))"
  by (simp add: merge_pool_facts) code_simp

end
